theory Spec2Isabelle
  imports Main
begin

section \<open>Offsets and intervals\<close>

text \<open>
  Modelled from the spec: the \<^verbatim>\<open>Offset\<close> class (analysis/Offset.h) is not among the
  sources. The specification describes an offset as a non-negative integer or the
  sentinel \<^verbatim>\<open>UNKNOWN\<close>; arithmetic with \<^verbatim>\<open>UNKNOWN\<close> yields
  \<^verbatim>\<open>UNKNOWN\<close>, and a length of \<^verbatim>\<open>UNKNOWN\<close> means "to the end of the
  object", so the sentinel is ordered above every number.
\<close>

datatype Offset = Off nat | UNKNOWN

definition Offset_isUnknown :: "Offset \<Rightarrow> bool" where
  "Offset_isUnknown x = (x = UNKNOWN)"

fun Offset_plus :: "Offset \<Rightarrow> Offset \<Rightarrow> Offset" where
  "Offset_plus (Off a) (Off b) = Off (a + b)"
| "Offset_plus _ _ = UNKNOWN"

text \<open>
  The difference of two numbers is taken on the naturals; the specification does not say
  what a difference below zero is, and no result below depends on it.
\<close>

fun Offset_minus :: "Offset \<Rightarrow> Offset \<Rightarrow> Offset" where
  "Offset_minus (Off a) (Off b) = Off (a - b)"
| "Offset_minus _ _ = UNKNOWN"

fun Offset_le :: "Offset \<Rightarrow> Offset \<Rightarrow> bool" where
  "Offset_le (Off a) (Off b) = (a \<le> b)"
| "Offset_le _ UNKNOWN = True"
| "Offset_le UNKNOWN (Off b) = False"

definition Offset_lt :: "Offset \<Rightarrow> Offset \<Rightarrow> bool" where
  "Offset_lt a b = (Offset_le a b \<and> a \<noteq> b)"

text \<open>
  Modelled from the spec: \<^verbatim>\<open>intervalsOverlap\<close> is declared in RDMap.h, which is not
  among the sources. It receives the start and the length of two intervals whose starts
  are known; the intervals are the half-open byte ranges \<open>[start, start + length)\<close>, a
  length of \<^verbatim>\<open>UNKNOWN\<close> reaching to the end of the object, and they overlap when
  they share a byte.
\<close>

fun intervalsOverlap :: "Offset \<Rightarrow> Offset \<Rightarrow> Offset \<Rightarrow> Offset \<Rightarrow> bool" where
  "intervalsOverlap (Off a) al (Off b) bl =
     (Offset_lt (Off a) (Offset_plus (Off b) bl) \<and> Offset_lt (Off b) (Offset_plus (Off a) al))"
| "intervalsOverlap _ _ _ _ = False"

text \<open>The class \<^verbatim>\<open>Interval\<close> of IntervalMap.h: a start and a length.\<close>

record Interval =
  start :: Offset
  len :: Offset

definition isUnknown :: "Interval \<Rightarrow> bool" where
  "isUnknown i = (Offset_isUnknown (start i) \<or> len i = Off 0)"

definition overlaps :: "Interval \<Rightarrow> Interval \<Rightarrow> bool" where
  "overlaps i other =
     (if isUnknown i \<or> isUnknown other then False
      else intervalsOverlap (start i) (len i) (start other) (len other))"

definition isSubsetOf :: "Interval \<Rightarrow> Interval \<Rightarrow> bool" where
  "isSubsetOf i other =
     (Offset_le (start other) (start i) \<and>
      Offset_le (Offset_plus (start i) (len i)) (Offset_plus (start other) (len other)))"

section \<open>The interval map\<close>

text \<open>
  The class \<^verbatim>\<open>IntervalMap\<close> of IntervalMap.h keeps a vector of buckets, each an
  interval with its value. \<^verbatim>\<open>killOverlapping\<close> walks the buckets once; the loop
  below returns the buckets it leaves and the local vector \<^verbatim>\<open>to_add\<close> it fills.
  The function ends without reading \<^verbatim>\<open>to_add\<close>, so only the first component
  is its effect.
\<close>

type_synonym 'v IntervalMap = "(Interval \<times> 'v) list"

fun killOverlapping_loop ::
  "Interval \<Rightarrow> 'v IntervalMap \<Rightarrow> 'v IntervalMap \<times> 'v IntervalMap" where
  "killOverlapping_loop ki [] = ([], [])"
| "killOverlapping_loop ki ((interval, v) # rest) =
     (let (buckets, to_add) = killOverlapping_loop ki rest in
      if overlaps interval ki then
        (if \<not> isSubsetOf ki interval then
           (buckets,
            (\<lparr>start = start interval, len = Offset_minus (start ki) (start interval)\<rparr>, v) #
            (\<lparr>start = Offset_plus (start ki) (len ki),
              len = Offset_minus (Offset_plus (start interval) (len interval))
                      (Offset_plus (start ki) (len ki))\<rparr>, v) # to_add)
         else (buckets, to_add))
      else ((interval, v) # buckets, to_add))"

definition killOverlapping :: "Interval \<Rightarrow> 'v IntervalMap \<Rightarrow> 'v IntervalMap" where
  "killOverlapping ki buckets = fst (killOverlapping_loop ki buckets)"

definition IntervalMap_add :: "Interval \<Rightarrow> 'v \<Rightarrow> 'v IntervalMap \<Rightarrow> 'v IntervalMap" where
  "IntervalMap_add interval v buckets = buckets @ [(interval, v)]"

definition collectAll :: "Interval \<Rightarrow> 'v IntervalMap \<Rightarrow> 'v list" where
  "collectAll interval buckets =
     map snd (filter (\<lambda>(i, v). isUnknown interval \<or> isUnknown i \<or> overlaps i interval)
                (rev buckets))"

section \<open>Def-sites and the definitions map\<close>

text \<open>
  Modelled from the spec: \<^verbatim>\<open>DefSite\<close>, the sentinel \<^verbatim>\<open>UNKNOWN_MEMORY\<close> and
  the class \<^verbatim>\<open>DefinitionsMap\<close> are declared in headers that are not among the
  sources. A def-site is a triple of a target, a start offset and a length. Nodes and
  blocks are referred to by their addresses, here natural numbers; the sentinel
  \<^verbatim>\<open>UNKNOWN_MEMORY\<close> is one fixed node, recognised by its address.
\<close>

record DefSite =
  target :: nat
  offset :: Offset
  dlen :: Offset

definition UNKNOWN_MEMORY :: nat where
  "UNKNOWN_MEMORY = 0"

definition target_isUnknown :: "nat \<Rightarrow> bool" where
  "target_isUnknown t = (t = UNKNOWN_MEMORY)"

definition getInterval :: "DefSite \<Rightarrow> Interval" where
  "getInterval ds = \<lparr>start = offset ds, len = dlen ds\<rparr>"

text \<open>
  A \<^verbatim>\<open>std::set\<close> of node addresses is a list without duplicates, kept in increasing
  order as the set iterates.
\<close>

definition set_insert :: "nat \<Rightarrow> nat list \<Rightarrow> nat list" where
  "set_insert x xs = (if x \<in> set xs then xs else insort x xs)"

definition set_insert_all :: "nat list \<Rightarrow> nat list \<Rightarrow> nat list" where
  "set_insert_all ys xs = fold set_insert ys xs"

text \<open>
  Modelled from the spec: the definitions map takes a target to its interval keys, each
  with the set of nodes that define it, the targets in key order. It is a class of its
  own, not the \<^verbatim>\<open>IntervalMap\<close> of IntervalMap.h; its intervals are a start and a
  length with the sentinel rules of the specification, which are those of
  \<^verbatim>\<open>Interval\<close> above.
\<close>

type_synonym Definitions = "(Interval \<times> nat list) list"

type_synonym DefinitionsMap = "(nat \<times> Definitions) list"

fun offsets :: "DefinitionsMap \<Rightarrow> nat \<Rightarrow> Definitions" where
  "offsets [] t = []"
| "offsets ((k, bs) # m) t = (if k = t then bs else offsets m t)"

fun setOffsets :: "nat \<Rightarrow> Definitions \<Rightarrow> DefinitionsMap \<Rightarrow> DefinitionsMap" where
  "setOffsets t bs [] = [(t, bs)]"
| "setOffsets t bs ((k, old) # m) =
     (if t = k then (t, bs) # m
      else if t < k then (t, bs) # (k, old) # m
      else (k, old) # setOffsets t bs m)"

definition definesTarget :: "DefinitionsMap \<Rightarrow> nat \<Rightarrow> bool" where
  "definesTarget m t = (t \<in> set (map fst m))"

text \<open>
  Modelled from the spec: \<^verbatim>\<open>DefinitionsMap::get\<close> is not among the sources. It
  returns all values mapped to any interval that overlaps the range of the def-site, for
  its target; whether two intervals overlap is \<^verbatim>\<open>Interval::overlaps\<close>.
\<close>

definition DefinitionsMap_get :: "DefinitionsMap \<Rightarrow> DefSite \<Rightarrow> nat list" where
  "DefinitionsMap_get m ds =
     set_insert_all
       (concat (map snd (filter (\<lambda>b. overlaps (fst b) (getInterval ds)) (offsets m (target ds)))))
       []"

text \<open>
  Modelled from the spec: \<^verbatim>\<open>DefinitionsMap::update\<close> is not among the sources. It
  is the strong update: clear any coverage of the def-site's range on its target, then
  insert the range with the one value. A key that overlaps the range and extends beyond it
  is split on the boundaries of the range, and the parts outside the range keep the value
  set of the key.
\<close>

definition Interval_end :: "Interval \<Rightarrow> Offset" where
  "Interval_end i = Offset_plus (start i) (len i)"

definition outside :: "Interval \<Rightarrow> Interval \<Rightarrow> Interval list" where
  "outside ki k =
     (if Offset_lt (start k) (start ki)
      then [\<lparr>start = start k, len = Offset_minus (start ki) (start k)\<rparr>] else [])
     @ (if Offset_lt (Interval_end ki) (Interval_end k)
        then [\<lparr>start = Interval_end ki,
               len = Offset_minus (Interval_end k) (Interval_end ki)\<rparr>]
        else [])"

definition splitKey :: "Interval \<Rightarrow> Interval \<times> nat list \<Rightarrow> Definitions" where
  "splitKey ki b = (if overlaps (fst b) ki then map (\<lambda>r. (r, snd b)) (outside ki (fst b)) else [b])"

definition DefinitionsMap_update :: "DefinitionsMap \<Rightarrow> DefSite \<Rightarrow> nat \<Rightarrow> DefinitionsMap" where
  "DefinitionsMap_update m ds v =
     setOffsets (target ds)
       (concat (map (splitKey (getInterval ds)) (offsets m (target ds)))
        @ [(getInterval ds, [v])]) m"

text \<open>
  Modelled from the spec: \<^verbatim>\<open>DefinitionsMap::addAll\<close> is not among the sources. It
  adds the value to the value set of every key of every target.
\<close>

definition DefinitionsMap_addAll :: "DefinitionsMap \<Rightarrow> nat \<Rightarrow> DefinitionsMap" where
  "DefinitionsMap_addAll m v =
     map (\<lambda>(t, bs). (t, map (\<lambda>(i, vs). (i, set_insert v vs)) bs)) m"

text \<open>
  Modelled from the spec: \<^verbatim>\<open>DefinitionsMap::undefinedIntervals\<close> is not among the
  sources. It returns the gaps inside the range of the def-site that no key of its target
  covers. The keys with a known range are swept in the order of their starts. The
  specification does not say what the gaps of an unknown range are; here such a def-site
  is covered by nothing and is returned whole.
\<close>

fun insertByStart :: "Offset \<times> Offset \<Rightarrow> (Offset \<times> Offset) list \<Rightarrow> (Offset \<times> Offset) list" where
  "insertByStart r [] = [r]"
| "insertByStart r (q # qs) =
     (if Offset_le (fst r) (fst q) then r # q # qs else q # insertByStart r qs)"

definition coveredRanges :: "Definitions \<Rightarrow> (Offset \<times> Offset) list" where
  "coveredRanges bs =
     foldr insertByStart
       (map (\<lambda>b. (start (fst b), Offset_plus (start (fst b)) (len (fst b))))
          (filter (\<lambda>b. \<not> isUnknown (fst b)) bs)) []"

fun uncoveredFrom :: "Offset \<Rightarrow> Offset \<Rightarrow> (Offset \<times> Offset) list \<Rightarrow> Interval list" where
  "uncoveredFrom cur e [] =
     (if Offset_lt cur e then [\<lparr>start = cur, len = Offset_minus e cur\<rparr>] else [])"
| "uncoveredFrom cur e ((ks, ke) # rest) =
     (if Offset_lt cur e then
        (if Offset_lt cur ks
         then [\<lparr>start = cur, len = Offset_minus (if Offset_le ks e then ks else e) cur\<rparr>]
         else [])
        @ uncoveredFrom (if Offset_le ke cur then cur else ke) e rest
      else [])"

definition undefinedIntervals :: "DefinitionsMap \<Rightarrow> DefSite \<Rightarrow> Interval list" where
  "undefinedIntervals m ds =
     (let i = getInterval ds in
      if isUnknown i then [i]
      else uncoveredFrom (start i) (Offset_plus (start i) (len i))
             (coveredRanges (offsets m (target ds))))"

text \<open>
  Modelled from the spec: \<^verbatim>\<open>DefinitionsMap::add\<close> is not among the sources. It is
  the weak update: merge the value into the value set of every key that intersects the
  def-site, and insert new keys for the uncovered parts of its range. The block walker of
  \<^verbatim>\<open>findAllReachingDefinitions\<close> also adds a set of nodes under a def-site, and a
  whole interval map under a target that the map does not define yet.
\<close>

definition DefinitionsMap_add :: "DefinitionsMap \<Rightarrow> DefSite \<Rightarrow> nat \<Rightarrow> DefinitionsMap" where
  "DefinitionsMap_add m ds v =
     setOffsets (target ds)
       (map (\<lambda>b. if overlaps (fst b) (getInterval ds) then (fst b, set_insert v (snd b)) else b)
          (offsets m (target ds))
        @ map (\<lambda>i. (i, [v])) (undefinedIntervals m ds)) m"

definition DefinitionsMap_add_nodes :: "DefinitionsMap \<Rightarrow> DefSite \<Rightarrow> nat list \<Rightarrow> DefinitionsMap" where
  "DefinitionsMap_add_nodes m ds vs = fold (\<lambda>v m'. DefinitionsMap_add m' ds v) vs m"

definition DefinitionsMap_add_target ::
  "DefinitionsMap \<Rightarrow> nat \<Rightarrow> Definitions \<Rightarrow> DefinitionsMap" where
  "DefinitionsMap_add_target m t bs = setOffsets t (offsets m t @ bs) m"

section \<open>The read-write graph\<close>

text \<open>
  Modelled from the spec: the classes \<^verbatim>\<open>RWNode\<close> and \<^verbatim>\<open>RWBBlock\<close> are
  declared in headers that are not among the sources. A node has a kind, a back reference
  to its block (null for a node of unreachable code), the def-sites it overwrites,
  defines and uses, the \<^verbatim>\<open>defuse\<close> collection of its resolved definitions, kept in
  insertion order without duplicates, and its successors in the control flow. A block has
  its nodes in order, its definitions map and its predecessors; a predecessor may be
  null.
\<close>

datatype RWNodeType = GENERIC | PHI | UNKNOWN_KIND

record RWNode =
  ntype :: RWNodeType
  bblock :: "nat option"
  overwrites :: "DefSite list"
  defs :: "DefSite list"
  uses :: "DefSite list"
  defuse :: "nat list"
  successors :: "nat list"

record RWBBlock =
  nodes :: "nat list"
  definitions :: DefinitionsMap
  predecessors :: "nat option list"

text \<open>
  Modelled from the spec: \<^verbatim>\<open>getSinglePredecessor\<close> returns the unique predecessor if
  exactly one exists, else null; \<^verbatim>\<open>defuse.add\<close> appends the nodes that the
  collection does not hold yet; \<^verbatim>\<open>usesUnknown\<close> tells whether a use of the node has
  the target \<^verbatim>\<open>UNKNOWN_MEMORY\<close> or an offset that is \<^verbatim>\<open>UNKNOWN\<close>.
\<close>

definition getSinglePredecessor :: "RWBBlock \<Rightarrow> nat option" where
  "getSinglePredecessor blk = (case predecessors blk of [p] \<Rightarrow> p | _ \<Rightarrow> None)"

definition defuse_add :: "nat list \<Rightarrow> nat list \<Rightarrow> nat list" where
  "defuse_add vs du = fold (\<lambda>v acc. if v \<in> set acc then acc else acc @ [v]) vs du"

definition usesUnknown :: "RWNode \<Rightarrow> bool" where
  "usesUnknown n =
     (\<exists>ds \<in> set (uses n). target_isUnknown (target ds) \<or> Offset_isUnknown (offset ds) \<or>
                            Offset_isUnknown (dlen ds))"

text \<open>
  The transformation object: the graph (a heap of nodes with the next free address, a heap
  of blocks and the list \<^verbatim>\<open>graph.blocks()\<close>) and the registry \<^verbatim>\<open>_phis\<close>.
\<close>

record MemorySSATransformation =
  rwnodes :: "nat \<Rightarrow> RWNode"
  next_node :: nat
  bblocks :: "nat \<Rightarrow> RWBBlock"
  blocks :: "nat list"
  phis :: "nat list"

datatype error = AssertionFailed | NullPointer

text \<open>
  A call returns a value, aborts on a failed assertion or a null pointer, or, where the
  source may recurse or loop without bound, runs out of the fuel the model gives it.
\<close>

datatype 'a result = Ok 'a | Abort error | OutOfFuel

text \<open>
  Modelled from the spec: \<^verbatim>\<open>graph.create\<close> allocates a node of the given kind at the
  next free address, with no block and no def-sites; \<^verbatim>\<open>addOverwrites\<close> appends a
  def-site to the overwrites of a node. \<^verbatim>\<open>addDefuse\<close> and \<^verbatim>\<open>setDefinitions\<close>
  write the \<^verbatim>\<open>defuse\<close> of a node and the map of a block into the state.
\<close>

definition create :: "RWNodeType \<Rightarrow> MemorySSATransformation \<Rightarrow> nat \<times> MemorySSATransformation" where
  "create ty st =
     (next_node st,
      st\<lparr>rwnodes := (rwnodes st)(next_node st :=
            \<lparr>ntype = ty, bblock = None, overwrites = [], defs = [], uses = [],
             defuse = [], successors = []\<rparr>),
         next_node := Suc (next_node st)\<rparr>)"

definition addOverwrites :: "nat \<Rightarrow> DefSite \<Rightarrow> MemorySSATransformation \<Rightarrow> MemorySSATransformation" where
  "addOverwrites n ds st =
     st\<lparr>rwnodes := (rwnodes st)(n := (rwnodes st n)\<lparr>overwrites := overwrites (rwnodes st n) @ [ds]\<rparr>)\<rparr>"

definition addDefuse :: "nat \<Rightarrow> nat list \<Rightarrow> MemorySSATransformation \<Rightarrow> MemorySSATransformation" where
  "addDefuse n vs st =
     st\<lparr>rwnodes := (rwnodes st)(n := (rwnodes st n)\<lparr>defuse := defuse_add vs (defuse (rwnodes st n))\<rparr>)\<rparr>"

definition setDefinitions :: "nat \<Rightarrow> DefinitionsMap \<Rightarrow> MemorySSATransformation \<Rightarrow> MemorySSATransformation" where
  "setDefinitions b m st = st\<lparr>bblocks := (bblocks st)(b := (bblocks st b)\<lparr>definitions := m\<rparr>)\<rparr>"

text \<open>
  Modelled from the spec: \<^verbatim>\<open>prependAndUpdateCFG\<close> installs the node as the new first
  node of the block; its successor is the former first node, and the node belongs to the
  block from then on.
\<close>

definition prependAndUpdateCFG :: "nat \<Rightarrow> nat \<Rightarrow> MemorySSATransformation \<Rightarrow> MemorySSATransformation" where
  "prependAndUpdateCFG b n st =
     st\<lparr>rwnodes := (rwnodes st)(n := (rwnodes st n)
            \<lparr>bblock := Some b,
             successors := (case nodes (bblocks st b) of [] \<Rightarrow> [] | f # _ \<Rightarrow> [f])\<rparr>),
         bblocks := (bblocks st)(b := (bblocks st b)\<lparr>nodes := n # nodes (bblocks st b)\<rparr>)\<rparr>"

section \<open>Local value numbering\<close>

text \<open>
  The statements that \<^verbatim>\<open>findDefinitionsInBlock\<close> and \<^verbatim>\<open>findDefinitions\<close> run for
  one uncovered interval when they create a PHI: create the node and append it to
  \<^verbatim>\<open>_phis\<close>, give it its one overwritten def-site, assert that the block has no
  definition of that def-site, record the PHI under it in the block's map, and prepend
  the PHI to the block.
\<close>

definition createPhi ::
  "nat \<Rightarrow> nat \<Rightarrow> Interval \<Rightarrow> MemorySSATransformation \<Rightarrow> (nat \<times> MemorySSATransformation) result" where
  "createPhi b t interval st =
     (let (p, st1) = create PHI st;
          st2 = st1\<lparr>phis := phis st1 @ [p]\<rparr>;
          pds = \<lparr>target = t, offset = start interval, dlen = len interval\<rparr>;
          st3 = addOverwrites p pds st2
      in if DefinitionsMap_get (definitions (bblocks st3 b)) pds \<noteq> [] then Abort AssertionFailed
         else Ok (p, prependAndUpdateCFG b p
                       (setDefinitions b (DefinitionsMap_update (definitions (bblocks st3 b)) pds p) st3)))"

fun findDefinitionsInBlock_loop ::
  "nat \<Rightarrow> nat \<Rightarrow> Interval list \<Rightarrow> nat list \<times> MemorySSATransformation
     \<Rightarrow> (nat list \<times> MemorySSATransformation) result" where
  "findDefinitionsInBlock_loop b t [] (dfs, st) = Ok (dfs, st)"
| "findDefinitionsInBlock_loop b t (interval # rest) (dfs, st) =
     (case createPhi b t interval st of
        Ok (p, st') \<Rightarrow> findDefinitionsInBlock_loop b t rest (dfs @ [p], st')
      | Abort e \<Rightarrow> Abort e
      | OutOfFuel \<Rightarrow> OutOfFuel)"

definition unknownMemory :: DefSite where
  "unknownMemory = \<lparr>target = UNKNOWN_MEMORY, offset = Off 0, dlen = UNKNOWN\<rparr>"

definition findDefinitionsInBlock ::
  "nat \<Rightarrow> DefSite \<Rightarrow> MemorySSATransformation \<Rightarrow> (nat list \<times> MemorySSATransformation) result" where
  "findDefinitionsInBlock b ds st =
     (let m = definitions (bblocks st b);
          defSet = DefinitionsMap_get m ds;
          unknown = DefinitionsMap_get m unknownMemory;
          uncovered = undefinedIntervals m ds
      in findDefinitionsInBlock_loop b (target ds) uncovered (defSet @ unknown, st))"

text \<open>The three loops of \<^verbatim>\<open>performLvn\<close> over one node, then the loop over the nodes.\<close>

fun performLvn_overwrites ::
  "nat \<Rightarrow> nat \<Rightarrow> DefSite list \<Rightarrow> MemorySSATransformation \<Rightarrow> MemorySSATransformation result" where
  "performLvn_overwrites b node [] st = Ok st"
| "performLvn_overwrites b node (ds # rest) st =
     (if Offset_isUnknown (offset ds) then Abort AssertionFailed
      else if target_isUnknown (target ds) then Abort AssertionFailed
      else performLvn_overwrites b node rest
             (setDefinitions b (DefinitionsMap_update (definitions (bblocks st b)) ds node) st))"

fun performLvn_defs ::
  "nat \<Rightarrow> nat \<Rightarrow> DefSite list \<Rightarrow> MemorySSATransformation \<Rightarrow> MemorySSATransformation result" where
  "performLvn_defs b node [] st = Ok st"
| "performLvn_defs b node (ds # rest) st =
     (if target_isUnknown (target ds) then
        performLvn_defs b node rest
          (setDefinitions b
             (DefinitionsMap_add (DefinitionsMap_addAll (definitions (bblocks st b)) node)
                \<lparr>target = target ds, offset = Off 0, dlen = UNKNOWN\<rparr> node) st)
      else
        (case findDefinitionsInBlock b ds st of
           Ok (found, st') \<Rightarrow>
             (let st'' = addDefuse node found st'
              in performLvn_defs b node rest
                   (setDefinitions b (DefinitionsMap_add (definitions (bblocks st'' b)) ds node) st''))
         | Abort e \<Rightarrow> Abort e
         | OutOfFuel \<Rightarrow> OutOfFuel))"

fun performLvn_uses ::
  "nat \<Rightarrow> nat \<Rightarrow> DefSite list \<Rightarrow> MemorySSATransformation \<Rightarrow> MemorySSATransformation result" where
  "performLvn_uses b node [] st = Ok st"
| "performLvn_uses b node (ds # rest) st =
     (case findDefinitionsInBlock b ds st of
        Ok (found, st') \<Rightarrow> performLvn_uses b node rest (addDefuse node found st')
      | Abort e \<Rightarrow> Abort e
      | OutOfFuel \<Rightarrow> OutOfFuel)"

definition performLvn_node :: "nat \<Rightarrow> nat \<Rightarrow> MemorySSATransformation \<Rightarrow> MemorySSATransformation result" where
  "performLvn_node b node st =
     (case performLvn_overwrites b node (overwrites (rwnodes st node)) st of
        Ok st1 \<Rightarrow>
          (case performLvn_defs b node (defs (rwnodes st1 node)) st1 of
             Ok st2 \<Rightarrow> performLvn_uses b node (uses (rwnodes st2 node)) st2
           | Abort e \<Rightarrow> Abort e
           | OutOfFuel \<Rightarrow> OutOfFuel)
      | Abort e \<Rightarrow> Abort e
      | OutOfFuel \<Rightarrow> OutOfFuel)"

fun performLvn_nodes :: "nat \<Rightarrow> nat list \<Rightarrow> MemorySSATransformation \<Rightarrow> MemorySSATransformation result" where
  "performLvn_nodes b [] st = Ok st"
| "performLvn_nodes b (node # rest) st =
     (case performLvn_node b node st of
        Ok st' \<Rightarrow> performLvn_nodes b rest st'
      | Abort e \<Rightarrow> Abort e
      | OutOfFuel \<Rightarrow> OutOfFuel)"

text \<open>
  \<^verbatim>\<open>performLvn(block)\<close>: the loop runs over the nodes the block has when it starts; a
  PHI prepended meanwhile lies before the iterator and is not visited.
\<close>

definition performLvn :: "nat \<Rightarrow> MemorySSATransformation \<Rightarrow> MemorySSATransformation result" where
  "performLvn b st = performLvn_nodes b (nodes (bblocks st b)) st"

fun performLvn_blocks :: "nat list \<Rightarrow> MemorySSATransformation \<Rightarrow> MemorySSATransformation result" where
  "performLvn_blocks [] st = Ok st"
| "performLvn_blocks (b # rest) st =
     (case performLvn b st of
        Ok st' \<Rightarrow> performLvn_blocks rest st'
      | Abort e \<Rightarrow> Abort e
      | OutOfFuel \<Rightarrow> OutOfFuel)"

definition performLvn_graph :: "MemorySSATransformation \<Rightarrow> MemorySSATransformation result" where
  "performLvn_graph st = performLvn_blocks (blocks st) st"

section \<open>Global value numbering\<close>

text \<open>
  \<^verbatim>\<open>findDefinitions\<close> recurses into the single predecessor of a block, and nothing in
  it bounds the recursion, so the model counts the depth with fuel. A null block returns
  the empty vector whatever the fuel.
\<close>

fun findDefinitions ::
  "nat \<Rightarrow> nat option \<Rightarrow> DefSite \<Rightarrow> MemorySSATransformation
     \<Rightarrow> (nat list \<times> MemorySSATransformation) result"
and findDefinitions_loop ::
  "nat \<Rightarrow> nat \<Rightarrow> DefSite \<Rightarrow> Interval list \<Rightarrow> nat list \<times> MemorySSATransformation
     \<Rightarrow> (nat list \<times> MemorySSATransformation) result" where
  "findDefinitions fuel None ds st = Ok ([], st)"
| "findDefinitions 0 (Some b) ds st = OutOfFuel"
| "findDefinitions (Suc fuel) (Some b) ds st =
     (let m = definitions (bblocks st b);
          defSet = DefinitionsMap_get m ds;
          unknown = DefinitionsMap_get m unknownMemory;
          uncovered = undefinedIntervals m ds
      in findDefinitions_loop fuel b ds uncovered (defSet @ unknown, st))"
| "findDefinitions_loop fuel b ds [] (dfs, st) = Ok (dfs, st)"
| "findDefinitions_loop fuel b ds (interval # rest) (dfs, st) =
     (case getSinglePredecessor (bblocks st b) of
        Some pred \<Rightarrow>
          (case findDefinitions fuel (Some pred) ds st of
             Ok (pdefs, st') \<Rightarrow> findDefinitions_loop fuel b ds rest (dfs @ pdefs, st')
           | Abort e \<Rightarrow> Abort e
           | OutOfFuel \<Rightarrow> OutOfFuel)
      | None \<Rightarrow>
          (case createPhi b (target ds) interval st of
             Ok (p, st') \<Rightarrow> findDefinitions_loop fuel b ds rest (dfs @ [p], st')
           | Abort e \<Rightarrow> Abort e
           | OutOfFuel \<Rightarrow> OutOfFuel))"

text \<open>
  \<^verbatim>\<open>performGvn\<close>: the worklist is a \<^verbatim>\<open>std::set\<close> of the registered PHIs, and the
  loop pops its first element. The inner loop runs over the predecessors of the PHI's
  block and queues the PHIs that a call of \<^verbatim>\<open>findDefinitions\<close> has appended to
  \<^verbatim>\<open>_phis\<close>. Reading the predecessors of a null block is the null pointer error.
\<close>

fun performGvn_preds ::
  "nat \<Rightarrow> nat \<Rightarrow> DefSite \<Rightarrow> nat option list \<Rightarrow> nat list \<times> MemorySSATransformation
     \<Rightarrow> (nat list \<times> MemorySSATransformation) result" where
  "performGvn_preds fuel phi ds [] (work, st) = Ok (work, st)"
| "performGvn_preds fuel phi ds (I # rest) (work, st) =
     (let old_phis_size = length (phis st) in
      case findDefinitions fuel I ds st of
        Ok (found, st') \<Rightarrow>
          performGvn_preds fuel phi ds rest
            (set_insert_all (drop old_phis_size (phis st')) work, addDefuse phi found st')
      | Abort e \<Rightarrow> Abort e
      | OutOfFuel \<Rightarrow> OutOfFuel)"

fun performGvn_loop ::
  "nat \<Rightarrow> nat list \<Rightarrow> MemorySSATransformation \<Rightarrow> MemorySSATransformation result" where
  "performGvn_loop fuel [] st = Ok st"
| "performGvn_loop 0 (phi # work) st = OutOfFuel"
| "performGvn_loop (Suc fuel) (phi # work) st =
     (case overwrites (rwnodes st phi) of
        [ds] \<Rightarrow>
          (case bblock (rwnodes st phi) of
             None \<Rightarrow> Abort NullPointer
           | Some block \<Rightarrow>
               (case performGvn_preds fuel phi ds (predecessors (bblocks st block)) (work, st) of
                  Ok (work', st') \<Rightarrow> performGvn_loop fuel work' st'
                | Abort e \<Rightarrow> Abort e
                | OutOfFuel \<Rightarrow> OutOfFuel))
      | _ \<Rightarrow> Abort AssertionFailed)"

definition performGvn :: "nat \<Rightarrow> MemorySSATransformation \<Rightarrow> MemorySSATransformation result" where
  "performGvn fuel st = performGvn_loop fuel (set_insert_all (phis st) []) st"

text \<open>
  The worklist of \<^verbatim>\<open>performGvn\<close> is a \<^verbatim>\<open>std::set<RWNode *>\<close>: it is ordered by
  the addresses of the nodes, which the allocator chooses, and the loop pops the node with
  the least address. In \<^verbatim>\<open>performGvn\<close> above the number of a node stands for its
  address. The functions below are the same loop with the address of every node as a
  parameter \<open>addr\<close>; \<^verbatim>\<open>pipeline_at\<close> is the local pass followed by this loop.
\<close>

definition set_insert_at :: "(nat \<Rightarrow> nat) \<Rightarrow> nat \<Rightarrow> nat list \<Rightarrow> nat list" where
  "set_insert_at addr x xs = (if x \<in> set xs then xs else insort_key addr x xs)"

definition set_insert_all_at :: "(nat \<Rightarrow> nat) \<Rightarrow> nat list \<Rightarrow> nat list \<Rightarrow> nat list" where
  "set_insert_all_at addr ys xs = fold (set_insert_at addr) ys xs"

fun performGvn_preds_at ::
  "(nat \<Rightarrow> nat) \<Rightarrow> nat \<Rightarrow> nat \<Rightarrow> DefSite \<Rightarrow> nat option list \<Rightarrow> nat list \<times> MemorySSATransformation
     \<Rightarrow> (nat list \<times> MemorySSATransformation) result" where
  "performGvn_preds_at addr fuel phi ds [] (work, st) = Ok (work, st)"
| "performGvn_preds_at addr fuel phi ds (I # rest) (work, st) =
     (let old_phis_size = length (phis st) in
      case findDefinitions fuel I ds st of
        Ok (found, st') \<Rightarrow>
          performGvn_preds_at addr fuel phi ds rest
            (set_insert_all_at addr (drop old_phis_size (phis st')) work, addDefuse phi found st')
      | Abort e \<Rightarrow> Abort e
      | OutOfFuel \<Rightarrow> OutOfFuel)"

fun performGvn_loop_at ::
  "(nat \<Rightarrow> nat) \<Rightarrow> nat \<Rightarrow> nat list \<Rightarrow> MemorySSATransformation \<Rightarrow> MemorySSATransformation result" where
  "performGvn_loop_at addr fuel [] st = Ok st"
| "performGvn_loop_at addr 0 (phi # work) st = OutOfFuel"
| "performGvn_loop_at addr (Suc fuel) (phi # work) st =
     (case overwrites (rwnodes st phi) of
        [ds] \<Rightarrow>
          (case bblock (rwnodes st phi) of
             None \<Rightarrow> Abort NullPointer
           | Some block \<Rightarrow>
               (case performGvn_preds_at addr fuel phi ds (predecessors (bblocks st block)) (work, st) of
                  Ok (work', st') \<Rightarrow> performGvn_loop_at addr fuel work' st'
                | Abort e \<Rightarrow> Abort e
                | OutOfFuel \<Rightarrow> OutOfFuel))
      | _ \<Rightarrow> Abort AssertionFailed)"

definition performGvn_at :: "(nat \<Rightarrow> nat) \<Rightarrow> nat \<Rightarrow> MemorySSATransformation \<Rightarrow> MemorySSATransformation result" where
  "performGvn_at addr fuel st = performGvn_loop_at addr fuel (set_insert_all_at addr (phis st) []) st"

definition pipeline_at :: "(nat \<Rightarrow> nat) \<Rightarrow> nat \<Rightarrow> MemorySSATransformation \<Rightarrow> MemorySSATransformation result" where
  "pipeline_at addr fuel st =
     (case performLvn_graph st of
        Ok st' \<Rightarrow> performGvn_at addr fuel st'
      | Abort e \<Rightarrow> Abort e
      | OutOfFuel \<Rightarrow> OutOfFuel)"

section \<open>The query layer\<close>

text \<open>
  \<^verbatim>\<open>recGatherNonPhisDefs\<close> recurses through the \<^verbatim>\<open>defuse\<close> collections of PHIs; the
  model counts the depth with fuel. The range-for of \<^verbatim>\<open>gatherNonPhisDefs\<close> has the
  same body as the one of \<^verbatim>\<open>recGatherNonPhisDefs\<close>. The state of the walk is the set
  of visited PHIs and the set of results.
\<close>

fun recGatherNonPhisDefs ::
  "nat \<Rightarrow> (nat \<Rightarrow> RWNode) \<Rightarrow> nat \<Rightarrow> nat list \<times> nat list \<Rightarrow> (nat list \<times> nat list) result"
and gatherNonPhisDefs_loop ::
  "nat \<Rightarrow> (nat \<Rightarrow> RWNode) \<Rightarrow> nat list \<Rightarrow> nat list \<times> nat list \<Rightarrow> (nat list \<times> nat list) result" where
  "recGatherNonPhisDefs 0 g phi (visited, ret) = OutOfFuel"
| "recGatherNonPhisDefs (Suc fuel) g phi (visited, ret) =
     (if ntype (g phi) \<noteq> PHI then Abort AssertionFailed
      else if phi \<in> set visited then Ok (visited, ret)
      else gatherNonPhisDefs_loop fuel g (defuse (g phi)) (set_insert phi visited, ret))"
| "gatherNonPhisDefs_loop fuel g [] (visited, ret) = Ok (visited, ret)"
| "gatherNonPhisDefs_loop fuel g (n # rest) (visited, ret) =
     (if ntype (g n) \<noteq> PHI then gatherNonPhisDefs_loop fuel g rest (visited, set_insert n ret)
      else
        (case recGatherNonPhisDefs fuel g n (visited, ret) of
           Ok s \<Rightarrow> gatherNonPhisDefs_loop fuel g rest s
         | Abort e \<Rightarrow> Abort e
         | OutOfFuel \<Rightarrow> OutOfFuel))"

definition gatherNonPhisDefs :: "nat \<Rightarrow> (nat \<Rightarrow> RWNode) \<Rightarrow> nat list \<Rightarrow> nat list result" where
  "gatherNonPhisDefs fuel g ns =
     (case gatherNonPhisDefs_loop fuel g ns ([], []) of
        Ok (visited, ret) \<Rightarrow> Ok ret
      | Abort e \<Rightarrow> Abort e
      | OutOfFuel \<Rightarrow> OutOfFuel)"

text \<open>
  \<^verbatim>\<open>findAllReachingDefinitions(from)\<close> first replays the updates of the nodes that
  precede \<^verbatim>\<open>from\<close> in its block into a local map.
\<close>

definition replay_node :: "(nat \<Rightarrow> RWNode) \<Rightarrow> nat \<Rightarrow> DefinitionsMap \<Rightarrow> DefinitionsMap" where
  "replay_node g node m =
     fold (\<lambda>ds m'.
             if target_isUnknown (target ds)
             then DefinitionsMap_add (DefinitionsMap_addAll m' node)
                    \<lparr>target = target ds, offset = Off 0, dlen = UNKNOWN\<rparr> node
             else DefinitionsMap_add m' ds node)
          (defs (g node))
          (fold (\<lambda>ds m'. DefinitionsMap_update m' ds node) (overwrites (g node)) m)"

fun replay_nodes :: "(nat \<Rightarrow> RWNode) \<Rightarrow> nat \<Rightarrow> nat list \<Rightarrow> DefinitionsMap \<Rightarrow> DefinitionsMap" where
  "replay_nodes g from [] m = m"
| "replay_nodes g from (node # rest) m =
     (if node = from then m else replay_nodes g from rest (replay_node g node m))"

definition allDefinitions :: "Definitions \<Rightarrow> nat list" where
  "allDefinitions bs = concat (map snd bs)"

text \<open>
  The loop of the block walker over the entries of the map of the block it visits: an
  entry of a target that the local map does not define is copied; otherwise only the
  parts that the local map leaves uncovered are added.
\<close>

definition mergeEntry ::
  "nat \<times> Definitions \<Rightarrow> DefinitionsMap \<times> nat list \<Rightarrow> DefinitionsMap \<times> nat list" where
  "mergeEntry it s =
     (case s of (dm, foundDefs) \<Rightarrow>
        if \<not> definesTarget dm (fst it)
        then (DefinitionsMap_add_target dm (fst it) (snd it),
              set_insert_all (allDefinitions (snd it)) foundDefs)
        else (fold (\<lambda>it2 d.
                      fold (\<lambda>undefInterv d'.
                              DefinitionsMap_add_nodes d'
                                \<lparr>target = fst it, offset = start undefInterv, dlen = len undefInterv\<rparr>
                                (snd it2))
                           (undefinedIntervals d
                              \<lparr>target = fst it, offset = start (fst it2), dlen = len (fst it2)\<rparr>) d)
                   (snd it) dm,
              foundDefs))"

text \<open>
  The block walker. Its state is the set of found definitions and the set of visited
  blocks, both passed by reference in the source; the local map is not read after a
  recursive call, so passing it on and passing a copy are the same. The recursion over
  the predecessors is counted with fuel.
\<close>

fun findAllReachingDefinitions_block ::
  "nat \<Rightarrow> (nat \<Rightarrow> RWBBlock) \<Rightarrow> DefinitionsMap \<Rightarrow> nat option \<Rightarrow> nat list \<times> nat list
     \<Rightarrow> (nat list \<times> nat list) result"
and findAllReachingDefinitions_preds ::
  "nat \<Rightarrow> (nat \<Rightarrow> RWBBlock) \<Rightarrow> DefinitionsMap \<Rightarrow> nat option list \<Rightarrow> nat list \<times> nat list
     \<Rightarrow> (nat list \<times> nat list) result" where
  "findAllReachingDefinitions_block fuel bs dm None (foundDefs, visitedBlocks) =
     Ok (foundDefs, visitedBlocks)"
| "findAllReachingDefinitions_block 0 bs dm (Some from) (foundDefs, visitedBlocks) = OutOfFuel"
| "findAllReachingDefinitions_block (Suc fuel) bs dm (Some from) (foundDefs, visitedBlocks) =
     (if from \<in> set visitedBlocks then Ok (foundDefs, visitedBlocks)
      else
        (case fold mergeEntry (definitions (bs from)) (dm, foundDefs) of
           (dm', foundDefs') \<Rightarrow>
             (case getSinglePredecessor (bs from) of
                Some singlePred \<Rightarrow>
                  findAllReachingDefinitions_block fuel bs dm' (Some singlePred)
                    (foundDefs', set_insert from visitedBlocks)
              | None \<Rightarrow>
                  findAllReachingDefinitions_preds fuel bs dm' (predecessors (bs from))
                    (foundDefs', set_insert from visitedBlocks))))"
| "findAllReachingDefinitions_preds fuel bs dm [] s = Ok s"
| "findAllReachingDefinitions_preds fuel bs dm (I # rest) s =
     (case findAllReachingDefinitions_block fuel bs dm I s of
        Ok s' \<Rightarrow> findAllReachingDefinitions_preds fuel bs dm rest s'
      | Abort e \<Rightarrow> Abort e
      | OutOfFuel \<Rightarrow> OutOfFuel)"

definition findAllReachingDefinitions :: "nat \<Rightarrow> MemorySSATransformation \<Rightarrow> nat \<Rightarrow> nat list result" where
  "findAllReachingDefinitions fuel st from =
     (case bblock (rwnodes st from) of
        None \<Rightarrow> Abort AssertionFailed
      | Some block \<Rightarrow>
          (let dm = replay_nodes (rwnodes st) from (nodes (bblocks st block)) [];
               foundDefs = set_insert_all (concat (map (\<lambda>it. allDefinitions (snd it)) dm)) []
           in case (case getSinglePredecessor (bblocks st block) of
                      Some singlePred \<Rightarrow>
                        findAllReachingDefinitions_block fuel (bblocks st) dm (Some singlePred)
                          (foundDefs, [])
                    | None \<Rightarrow>
                        findAllReachingDefinitions_preds fuel (bblocks st) dm
                          (predecessors (bblocks st block)) (foundDefs, [])) of
                Ok (foundDefs', visitedBlocks) \<Rightarrow> gatherNonPhisDefs fuel (rwnodes st) foundDefs'
              | Abort e \<Rightarrow> Abort e
              | OutOfFuel \<Rightarrow> OutOfFuel))"

definition getReachingDefinitions :: "nat \<Rightarrow> MemorySSATransformation \<Rightarrow> nat \<Rightarrow> nat list result" where
  "getReachingDefinitions fuel st use =
     (if usesUnknown (rwnodes st use) then findAllReachingDefinitions fuel st use
      else gatherNonPhisDefs fuel (rwnodes st) (defuse (rwnodes st use)))"

section \<open>Invariants and frames\<close>

text \<open>The nodes that occur in the value sets of a definitions map.\<close>

definition definedBy :: "DefinitionsMap \<Rightarrow> nat set" where
  "definedBy m = (\<Union>it \<in> set m. \<Union>b \<in> set (snd it). set (snd b))"

text \<open>
  A relation between the state before and after is closed under the steps of the local
  pass for the nodes of \<open>A\<close> when it is reflexive and transitive and holds across each
  write to a block's map that adds at most the node, each addition to the
  \<^verbatim>\<open>defuse\<close> of the node, and each creation of a PHI.
\<close>

definition lvn_closed ::
  "(MemorySSATransformation \<Rightarrow> MemorySSATransformation \<Rightarrow> bool) \<Rightarrow> nat set \<Rightarrow> bool" where
  "lvn_closed R A \<longleftrightarrow>
     (\<forall>s. R s s) \<and> (\<forall>s t u. R s t \<longrightarrow> R t u \<longrightarrow> R s u) \<and>
     (\<forall>b node m s. node \<in> A \<longrightarrow>
          definedBy m \<subseteq> insert node (definedBy (definitions (bblocks s b))) \<longrightarrow>
          R s (setDefinitions b m s)) \<and>
     (\<forall>node vs s. node \<in> A \<longrightarrow> R s (addDefuse node vs s)) \<and>
     (\<forall>b t i s p s'. createPhi b t i s = Ok (p, s') \<longrightarrow> R s s')"

text \<open>Every registered PHI has a block; a step keeps the registry and this property.\<close>

definition phis_placed :: "MemorySSATransformation \<Rightarrow> bool" where
  "phis_placed st \<longleftrightarrow> (\<forall>p \<in> set (phis st). bblock (rwnodes st p) \<noteq> None)"

definition placed_step :: "MemorySSATransformation \<Rightarrow> MemorySSATransformation \<Rightarrow> bool" where
  "placed_step s s' \<longleftrightarrow> set (phis s) \<subseteq> set (phis s') \<and> (phis_placed s \<longrightarrow> phis_placed s')"

text \<open>
  A step leaves the allocated node \<open>n\<close> as it is and does not record it in the map of
  block \<open>b0\<close>.
\<close>

definition untouched :: "nat \<Rightarrow> nat \<Rightarrow> MemorySSATransformation \<Rightarrow> MemorySSATransformation \<Rightarrow> bool" where
  "untouched n b0 s s' \<longleftrightarrow>
     (n < next_node s \<longrightarrow>
        n < next_node s' \<and> rwnodes s' n = rwnodes s n \<and>
        (n \<notin> definedBy (definitions (bblocks s b0)) \<longrightarrow>
         n \<notin> definedBy (definitions (bblocks s' b0))))"

text \<open>
  What a call of \<^verbatim>\<open>findDefinitions\<close> leaves alone: the predecessors of every block,
  and the nodes and the map of every block that has a single predecessor.
\<close>

definition single_pred_frame :: "MemorySSATransformation \<Rightarrow> MemorySSATransformation \<Rightarrow> bool" where
  "single_pred_frame s s' \<longleftrightarrow>
     (\<forall>x. predecessors (bblocks s' x) = predecessors (bblocks s x)) \<and>
     (\<forall>x. getSinglePredecessor (bblocks s x) \<noteq> None \<longrightarrow>
          nodes (bblocks s' x) = nodes (bblocks s x) \<and>
          definitions (bblocks s' x) = definitions (bblocks s x))"

text \<open>
  What a step does to the registry: the counter of nodes and the registry grow, and a PHI
  that is new in the registry is a new node.
\<close>

definition registry_step :: "MemorySSATransformation \<Rightarrow> MemorySSATransformation \<Rightarrow> bool" where
  "registry_step s s' \<longleftrightarrow>
     next_node s \<le> next_node s' \<and> set (phis s) \<subseteq> set (phis s') \<and>
     (\<forall>p \<in> set (phis s'). p \<in> set (phis s) \<or> next_node s \<le> p)"

text \<open>
  A registry step that moreover leaves the \<^verbatim>\<open>defuse\<close> of every allocated node alone
  that is not a registered PHI.
\<close>

definition gvn_frame :: "MemorySSATransformation \<Rightarrow> MemorySSATransformation \<Rightarrow> bool" where
  "gvn_frame s s' \<longleftrightarrow>
     next_node s \<le> next_node s' \<and> set (phis s) \<subseteq> set (phis s') \<and>
     (\<forall>p \<in> set (phis s'). p \<in> set (phis s) \<or> next_node s \<le> p) \<and>
     (\<forall>n. n < next_node s \<longrightarrow> n \<notin> set (phis s) \<longrightarrow> defuse (rwnodes s' n) = defuse (rwnodes s n))"

text \<open>
  Where a node has got into the map of its block. A carrier is a target with a range. The
  carrier of a strong write is its own range. A weak write of a node enters the node under
  every key that intersects its range, and under new keys inside its range: its carriers
  are its own range and the keys of \<open>m0\<close>, the map of the block when the pass reaches
  the node, that intersect it. A lookup hits a carrier of its target that its range
  overlaps.
\<close>

definition hits :: "DefSite \<Rightarrow> nat \<times> Interval \<Rightarrow> bool" where
  "hits ds c \<longleftrightarrow> fst c = target ds \<and> overlaps (snd c) (getInterval ds)"

definition strongCarrier :: "DefSite \<Rightarrow> nat \<times> Interval" where
  "strongCarrier w = (target w, getInterval w)"

definition weakCarriers :: "DefinitionsMap \<Rightarrow> DefSite \<Rightarrow> (nat \<times> Interval) list" where
  "weakCarriers m0 d =
     (target d, getInterval d) #
     map (\<lambda>b. (target d, fst b))
       (filter (\<lambda>b. overlaps (fst b) (getInterval d)) (offsets m0 (target d)))"

text \<open>
  The def-sites of a node are clear of each other when no lookup of the node (for a weak
  write to a known target, or for a use) hits a carrier of a write that the node has made
  before it, and no lookup follows a weak write to unknown memory, which enters the node
  under every key. \<open>C\<close> holds the carriers so far.
\<close>

fun selfClear_defs ::
  "DefinitionsMap \<Rightarrow> (nat \<times> Interval) list \<Rightarrow> DefSite list \<Rightarrow> DefSite list \<Rightarrow> bool" where
  "selfClear_defs m0 C [] uss = (\<forall>u \<in> set uss. \<forall>c \<in> set C. \<not> hits u c)"
| "selfClear_defs m0 C (d # ds) uss =
     (if target_isUnknown (target d)
      then (\<forall>d' \<in> set ds. target_isUnknown (target d')) \<and> uss = []
      else (\<forall>c \<in> set C. \<not> hits d c) \<and> selfClear_defs m0 (C @ weakCarriers m0 d) ds uss)"

definition selfClear :: "DefinitionsMap \<Rightarrow> DefSite list \<Rightarrow> DefSite list \<Rightarrow> DefSite list \<Rightarrow> bool" where
  "selfClear m0 ows dfs uss = selfClear_defs m0 (map strongCarrier ows) dfs uss"

text \<open>
  The keys of a map \<open>m\<close> with respect to the carriers \<open>C\<close>: every key lies inside a
  carrier of its target, or it does not hold \<open>n\<close> and lies inside a key of \<open>m0\<close>. The
  weaker \<^verbatim>\<open>carried\<close> speaks of the keys that hold \<open>n\<close> only. No carrier is of unknown
  memory.
\<close>

definition keysWithin :: "nat \<Rightarrow> DefinitionsMap \<Rightarrow> (nat \<times> Interval) list \<Rightarrow> DefinitionsMap \<Rightarrow> bool" where
  "keysWithin n m0 C m \<longleftrightarrow>
     (\<forall>c \<in> set C. \<not> target_isUnknown (fst c)) \<and>
     (\<forall>t. \<forall>kv \<in> set (offsets m t).
        (\<exists>c \<in> set C. fst c = t \<and> isSubsetOf (fst kv) (snd c)) \<or>
        (n \<notin> set (snd kv) \<and> (\<exists>b0 \<in> set (offsets m0 t). isSubsetOf (fst kv) (fst b0))))"

definition carried :: "nat \<Rightarrow> (nat \<times> Interval) list \<Rightarrow> DefinitionsMap \<Rightarrow> bool" where
  "carried n C m \<longleftrightarrow>
     (\<forall>c \<in> set C. \<not> target_isUnknown (fst c)) \<and>
     (\<forall>t. \<forall>kv \<in> set (offsets m t). n \<in> set (snd kv) \<longrightarrow>
        (\<exists>c \<in> set C. fst c = t \<and> isSubsetOf (fst kv) (snd c)))"

section \<open>Example graphs\<close>

definition emptyNode :: RWNode where
  "emptyNode = \<lparr>ntype = GENERIC, bblock = None, overwrites = [], defs = [], uses = [],
                 defuse = [], successors = []\<rparr>"

definition emptyBlock :: RWBBlock where
  "emptyBlock = \<lparr>nodes = [], definitions = [], predecessors = []\<rparr>"

definition emptyGraph :: MemorySSATransformation where
  "emptyGraph = \<lparr>rwnodes = (\<lambda>_. emptyNode), next_node = 1, bblocks = (\<lambda>_. emptyBlock),
                  blocks = [], phis = []\<rparr>"


text \<open>
  Scenario S4 of the specification: one block, number 0, with the nodes 2, 3 and 4 in this
  order. Node 2 overwrites \<open>(t, 0, 4)\<close>, node 3 defines \<open>(UNKNOWN_MEMORY, 0, UNKNOWN)\<close>
  and node 4 uses \<open>(t, 0, 4)\<close>, the target \<open>t\<close> being node 1.
\<close>

definition S4 :: MemorySSATransformation where
  "S4 = \<lparr>rwnodes = (\<lambda>_. emptyNode)
           (2 := emptyNode\<lparr>bblock := Some 0,
                            overwrites := [\<lparr>target = 1, offset = Off 0, dlen = Off 4\<rparr>]\<rparr>,
            3 := emptyNode\<lparr>bblock := Some 0,
                            defs := [\<lparr>target = UNKNOWN_MEMORY, offset = Off 0, dlen = UNKNOWN\<rparr>]\<rparr>,
            4 := emptyNode\<lparr>bblock := Some 0,
                            uses := [\<lparr>target = 1, offset = Off 0, dlen = Off 4\<rparr>]\<rparr>),
          next_node = 5,
          bblocks = (\<lambda>_. emptyBlock)(0 := emptyBlock\<lparr>nodes := [2, 3, 4]\<rparr>),
          blocks = [0],
          phis = []\<rparr>"

text \<open>
  Scenario S2 of the specification, the diamond: the entry block 0, the blocks 1 and 2
  that each overwrite \<open>(t, 0, 4)\<close> (nodes 2 and 3), their join, block 3, and block 4
  after the join, whose node 4 uses \<open>(t, 0, 4)\<close>.
\<close>

definition S2 :: MemorySSATransformation where
  "S2 = \<lparr>rwnodes = (\<lambda>_. emptyNode)
           (2 := emptyNode\<lparr>bblock := Some 1,
                            overwrites := [\<lparr>target = 1, offset = Off 0, dlen = Off 4\<rparr>]\<rparr>,
            3 := emptyNode\<lparr>bblock := Some 2,
                            overwrites := [\<lparr>target = 1, offset = Off 0, dlen = Off 4\<rparr>]\<rparr>,
            4 := emptyNode\<lparr>bblock := Some 4,
                            uses := [\<lparr>target = 1, offset = Off 0, dlen = Off 4\<rparr>]\<rparr>),
          next_node = 5,
          bblocks = (\<lambda>_. emptyBlock)
           (1 := emptyBlock\<lparr>nodes := [2], predecessors := [Some 0]\<rparr>,
            2 := emptyBlock\<lparr>nodes := [3], predecessors := [Some 0]\<rparr>,
            3 := emptyBlock\<lparr>predecessors := [Some 1, Some 2]\<rparr>,
            4 := emptyBlock\<lparr>nodes := [4], predecessors := [Some 3]\<rparr>),
          blocks = [0, 1, 2, 3, 4],
          phis = []\<rparr>"


definition S2_ds :: DefSite where
  "S2_ds = \<lparr>target = 1, offset = Off 0, dlen = Off 4\<rparr>"

text \<open>A graph whose one block has a single predecessor, which is null.\<close>

definition NullPred :: MemorySSATransformation where
  "NullPred = emptyGraph\<lparr>bblocks := (\<lambda>_. emptyBlock)(0 := emptyBlock\<lparr>predecessors := [None]\<rparr>),
                         blocks := [0]\<rparr>"

text \<open>
  A graph whose PHIs form a cycle: the PHIs 5 and 6 are each in the \<^verbatim>\<open>defuse\<close> of the
  other, and the block is its own predecessor.
\<close>

definition PhiCycle :: MemorySSATransformation where
  "PhiCycle = \<lparr>rwnodes = (\<lambda>_. emptyNode)
           (4 := emptyNode\<lparr>bblock := Some 0, defuse := [5],
                            uses := [\<lparr>target = 1, offset = Off 0, dlen = Off 4\<rparr>]\<rparr>,
            5 := emptyNode\<lparr>ntype := PHI, bblock := Some 0, defuse := [6, 2]\<rparr>,
            6 := emptyNode\<lparr>ntype := PHI, bblock := Some 0, defuse := [5, 3]\<rparr>),
          next_node = 7,
          bblocks = (\<lambda>_. emptyBlock)(0 := emptyBlock\<lparr>nodes := [5, 6, 4], predecessors := [Some 0]\<rparr>),
          blocks = [0],
          phis = [5, 6]\<rparr>"

text \<open>
  A block with the nodes 2 and 3. Node 2 overwrites \<open>(t, 0, 2)\<close>. Node 3 has two weak
  writes to disjoint ranges of \<open>t\<close>, \<open>(t, 0, 4)\<close> and \<open>(t, 4, 4)\<close>, and a use of another
  target.
\<close>

definition DisjointDefs :: MemorySSATransformation where
  "DisjointDefs = \<lparr>rwnodes = (\<lambda>_. emptyNode)
           (2 := emptyNode\<lparr>bblock := Some 0,
                            overwrites := [\<lparr>target = 1, offset = Off 0, dlen = Off 2\<rparr>]\<rparr>,
            3 := emptyNode\<lparr>bblock := Some 0,
                            defs := [\<lparr>target = 1, offset = Off 0, dlen = Off 4\<rparr>,
                                     \<lparr>target = 1, offset = Off 4, dlen = Off 4\<rparr>],
                            uses := [\<lparr>target = 5, offset = Off 0, dlen = Off 4\<rparr>]\<rparr>),
          next_node = 6,
          bblocks = (\<lambda>_. emptyBlock)(0 := emptyBlock\<lparr>nodes := [2, 3]\<rparr>),
          blocks = [0],
          phis = []\<rparr>"

text \<open>
  A block with the single node 2, which has two weak writes to overlapping ranges of the
  same target: \<open>(t, 0, 4)\<close> and \<open>(t, 2, 4)\<close>.
\<close>

definition TwoDefs :: MemorySSATransformation where
  "TwoDefs = \<lparr>rwnodes = (\<lambda>_. emptyNode)
           (2 := emptyNode\<lparr>bblock := Some 0,
                            defs := [\<lparr>target = 1, offset = Off 0, dlen = Off 4\<rparr>,
                                     \<lparr>target = 1, offset = Off 2, dlen = Off 4\<rparr>]\<rparr>),
          next_node = 3,
          bblocks = (\<lambda>_. emptyBlock)(0 := emptyBlock\<lparr>nodes := [2]\<rparr>),
          blocks = [0],
          phis = []\<rparr>"

text \<open>
  Two blocks 0 and 1 that overwrite \<open>(t, 0, 8)\<close> meet in the empty block 2. Block 2 is
  the single predecessor of block 3, where node 4 reads \<open>(t, 0, 4)\<close>, and of block 4,
  where node 5 reads \<open>(t, 0, 8)\<close>.
\<close>

definition Fork :: MemorySSATransformation where
  "Fork = \<lparr>rwnodes = (\<lambda>_. emptyNode)
           (2 := emptyNode\<lparr>bblock := Some 0,
                            overwrites := [\<lparr>target = 1, offset = Off 0, dlen = Off 8\<rparr>]\<rparr>,
            3 := emptyNode\<lparr>bblock := Some 1,
                            overwrites := [\<lparr>target = 1, offset = Off 0, dlen = Off 8\<rparr>]\<rparr>,
            4 := emptyNode\<lparr>bblock := Some 3,
                            uses := [\<lparr>target = 1, offset = Off 0, dlen = Off 4\<rparr>]\<rparr>,
            5 := emptyNode\<lparr>bblock := Some 4,
                            uses := [\<lparr>target = 1, offset = Off 0, dlen = Off 8\<rparr>]\<rparr>),
          next_node = 6,
          bblocks = (\<lambda>_. emptyBlock)
           (0 := emptyBlock\<lparr>nodes := [2]\<rparr>,
            1 := emptyBlock\<lparr>nodes := [3]\<rparr>,
            2 := emptyBlock\<lparr>predecessors := [Some 0, Some 1]\<rparr>,
            3 := emptyBlock\<lparr>nodes := [4], predecessors := [Some 2]\<rparr>,
            4 := emptyBlock\<lparr>nodes := [5], predecessors := [Some 2]\<rparr>),
          blocks = [0, 1, 2, 3, 4],
          phis = []\<rparr>"

text \<open>
  Two allocators: the addresses of the nodes grow with their numbers, or fall (for the
  first hundred nodes).
\<close>

definition upwards :: "nat \<Rightarrow> nat" where
  "upwards n = n"

definition downwards :: "nat \<Rightarrow> nat" where
  "downwards n = 100 - n"

section \<open>Basic facts\<close>

lemmas interval_defs =
  isUnknown_def overlaps_def Offset_isUnknown_def Offset_lt_def isSubsetOf_def

lemmas map_defs =
  DefinitionsMap_get_def DefinitionsMap_update_def splitKey_def outside_def Interval_end_def
  getInterval_def set_insert_all_def set_insert_def

lemmas lvn_defs =
  performLvn_graph_def performLvn_def performLvn_node_def findDefinitionsInBlock_def
  createPhi_def create_def addOverwrites_def addDefuse_def setDefinitions_def
  prependAndUpdateCFG_def defuse_add_def unknownMemory_def target_isUnknown_def
  UNKNOWN_MEMORY_def DefinitionsMap_add_def DefinitionsMap_addAll_def undefinedIntervals_def
  coveredRanges_def Let_def

lemmas gvn_defs =
  pipeline_at_def performGvn_at_def set_insert_all_at_def set_insert_at_def
  upwards_def downwards_def

lemmas clear_defs = selfClear_def strongCarrier_def weakCarriers_def hits_def

lemma set_set_insert [simp]: "set (set_insert x xs) = insert x (set xs)"
  by (auto simp add: set_insert_def set_insort_key)

lemma set_set_insert_all [simp]: "set (set_insert_all ys xs) = set ys \<union> set xs"
  unfolding set_insert_all_def by (induction ys arbitrary: xs) auto

lemma offsets_setOffsets [simp]:
  "offsets (setOffsets t bs m) t' = (if t' = t then bs else offsets m t')"
  by (induction m) auto


lemma killOverlapping_filter:
  "killOverlapping ki buckets = filter (\<lambda>b. \<not> overlaps (fst b) ki) buckets"
  unfolding killOverlapping_def
  by (induction buckets) (auto split: prod.splits)





lemma getSinglePredecessor_Some:
  "getSinglePredecessor blk = Some P \<longleftrightarrow> predecessors blk = [Some P]"
  by (auto simp: getSinglePredecessor_def split: list.splits)

section \<open>Effects of creating a PHI\<close>

lemma createPhi_effect:
  assumes "createPhi b t i st = Ok (p, st')"
  shows "p = next_node st" "next_node st' = Suc (next_node st)" "phis st' = phis st @ [p]"
    "blocks st' = blocks st"
    "\<And>k. k \<noteq> p \<Longrightarrow> rwnodes st' k = rwnodes st k"
    "rwnodes st' p = \<lparr>ntype = PHI, bblock = Some b,
        overwrites = [\<lparr>target = t, offset = start i, dlen = len i\<rparr>], defs = [], uses = [],
        defuse = [], successors = (case nodes (bblocks st b) of [] \<Rightarrow> [] | f # _ \<Rightarrow> [f])\<rparr>"
    "\<And>x. x \<noteq> b \<Longrightarrow> bblocks st' x = bblocks st x"
    "bblocks st' b = \<lparr>nodes = p # nodes (bblocks st b),
        definitions = DefinitionsMap_update (definitions (bblocks st b))
                        \<lparr>target = t, offset = start i, dlen = len i\<rparr> p,
        predecessors = predecessors (bblocks st b)\<rparr>"
    "DefinitionsMap_get (definitions (bblocks st b)) \<lparr>target = t, offset = start i, dlen = len i\<rparr> = []"
  using assms
  by (auto simp: createPhi_def create_def addOverwrites_def setDefinitions_def
      prependAndUpdateCFG_def Let_def split: if_splits)

lemma createPhi_Ok:
  assumes "DefinitionsMap_get (definitions (bblocks st b)) \<lparr>target = t, offset = start i, dlen = len i\<rparr> = []"
  shows "\<exists>st'. createPhi b t i st = Ok (next_node st, st')"
  using assms
  by (simp add: createPhi_def create_def addOverwrites_def Let_def)

lemma createPhi_not_fuel: "createPhi b t i st \<noteq> OutOfFuel" "createPhi b t i st \<noteq> Abort NullPointer"
  by (simp_all add: createPhi_def create_def Let_def)


lemma findDefinitions_preserves:
  assumes R_refl: "\<And>s. R s s"
      and R_trans: "\<And>s t u. R s t \<Longrightarrow> R t u \<Longrightarrow> R s u"
      and R_step: "\<And>b t i s p s'. createPhi b t i s = Ok (p, s') \<Longrightarrow>
                   getSinglePredecessor (bblocks s b) = None \<Longrightarrow> R s s'"
  shows "findDefinitions fuel blk ds st = Ok (r, st') \<Longrightarrow> R st st'"
    and "findDefinitions_loop fuel b ds ivs acc = Ok (r, st') \<Longrightarrow> R (snd acc) st'"
proof (induction fuel blk ds st and fuel b ds ivs acc arbitrary: r st' and r st'
    rule: findDefinitions_findDefinitions_loop.induct)
  case (1 fuel ds st)
  then show ?case by (simp add: R_refl)
next
  case (2 b ds st)
  then show ?case by simp
next
  case (3 fuel b ds st)
  then show ?case by (simp add: Let_def)
next
  case (4 fuel b ds dfs st)
  then show ?case by (simp add: R_refl)
next
  case (5 fuel b ds interval rest dfs st)
  show ?case
  proof (cases "getSinglePredecessor (bblocks st b)")
    case None
    with "5.prems" obtain p s1 where c: "createPhi b (target ds) interval st = Ok (p, s1)"
      and l: "findDefinitions_loop fuel b ds rest (dfs @ [p], s1) = Ok (r, st')"
      by (auto split: result.splits)
    from "5.IH"(1) [OF None c refl l] have "R s1 st'" by simp
    with R_step [OF c None] show ?thesis by (auto intro: R_trans)
  next
    case (Some pred)
    with "5.prems" obtain pdefs s1 where c: "findDefinitions fuel (Some pred) ds st = Ok (pdefs, s1)"
      and l: "findDefinitions_loop fuel b ds rest (dfs @ pdefs, s1) = Ok (r, st')"
      by (auto split: result.splits)
    from "5.IH"(2) [OF Some c] have "R st s1" .
    moreover from "5.IH"(3) [OF Some c refl l] have "R s1 st'" by simp
    ultimately show ?thesis by (auto intro: R_trans)
  qed
qed

lemma findDefinitions_loop_acc:
  "findDefinitions_loop fuel b ds ivs (dfs, st) = Ok (r, st') \<Longrightarrow> set dfs \<subseteq> set r"
proof (induction ivs arbitrary: dfs st)
  case Nil
  then show ?case by simp
next
  case (Cons i ivs)
  from Cons.prems obtain x s1 where "findDefinitions_loop fuel b ds ivs (dfs @ x, s1) = Ok (r, st')"
    by (auto split: option.splits result.splits)
  from Cons.IH [OF this] show ?case by simp
qed

lemma findDefinitions_single_pred_frame:
  assumes "findDefinitions fuel blk ds st = Ok (r, st')"
  shows "single_pred_frame st st'"
proof (rule findDefinitions_preserves(1) [where R = single_pred_frame, OF _ _ _ assms])
  show "single_pred_frame s s" for s by (simp add: single_pred_frame_def)
  show "single_pred_frame s t \<Longrightarrow> single_pred_frame t u \<Longrightarrow> single_pred_frame s u" for s t u
    by (simp add: single_pred_frame_def getSinglePredecessor_def)
  show "single_pred_frame s s'"
    if c: "createPhi b t i s = Ok (p, s')" and np: "getSinglePredecessor (bblocks s b) = None"
    for b t i s p s'
  proof -
    note e = createPhi_effect(7,8) [OF c]
    have "predecessors (bblocks s' x) = predecessors (bblocks s x)" for x
      using e by (cases "x = b") auto
    moreover have "nodes (bblocks s' x) = nodes (bblocks s x) \<and>
        definitions (bblocks s' x) = definitions (bblocks s x)"
      if "getSinglePredecessor (bblocks s x) \<noteq> None" for x
      using e that np by (cases "x = b") auto
    ultimately show ?thesis by (simp add: single_pred_frame_def)
  qed
qed

section \<open>Termination of the walks\<close>

lemma card_Diff_insert_less:
  assumes "finite U" "x \<in> U" "x \<notin> V"
  shows "card (U - insert x V) < card (U - V)"
proof -
  have "U - insert x V \<subset> U - V" using assms by auto
  with assms(1) show ?thesis by (simp add: psubset_card_mono)
qed

lemma gather_terminates:
  shows "finite U \<Longrightarrow> U = {n. ntype (g n) = PHI} \<Longrightarrow>
         ntype (g phi) = PHI \<Longrightarrow> set visited \<subseteq> U \<Longrightarrow> card (U - set visited) < fuel \<Longrightarrow>
         \<exists>v' r'. recGatherNonPhisDefs fuel g phi (visited, ret) = Ok (v', r') \<and>
                 set visited \<subseteq> set v' \<and> set v' \<subseteq> U \<and>
                 (\<forall>n \<in> set r'. n \<in> set ret \<or> ntype (g n) \<noteq> PHI)"
    and "finite U \<Longrightarrow> U = {n. ntype (g n) = PHI} \<Longrightarrow>
         set visited \<subseteq> U \<Longrightarrow> card (U - set visited) < fuel \<Longrightarrow>
         \<exists>v' r'. gatherNonPhisDefs_loop fuel g ns (visited, ret) = Ok (v', r') \<and>
                 set visited \<subseteq> set v' \<and> set v' \<subseteq> U \<and>
                 (\<forall>n \<in> set r'. n \<in> set ret \<or> ntype (g n) \<noteq> PHI)"
proof (induction fuel g phi "(visited, ret)" and fuel g ns "(visited, ret)"
    arbitrary: visited ret and visited ret
    rule: recGatherNonPhisDefs_gatherNonPhisDefs_loop.induct)
  case (1 g phi visited ret)
  then show ?case by simp
next
  case (2 fuel g phi visited ret)
  note fin = "2.prems"(1) and U = "2.prems"(2)
  show ?case
  proof (cases "phi \<in> set visited")
    case True
    with "2.prems" show ?thesis by simp
  next
    case False
    have phiU: "phi \<in> U" using "2.prems"(3) U by simp
    have sub: "set (set_insert phi visited) \<subseteq> U" using "2.prems"(4) phiU by simp
    have "card (U - set (set_insert phi visited)) < card (U - set visited)"
      using card_Diff_insert_less [OF fin phiU False] by simp
    with "2.prems"(5) have c: "card (U - set (set_insert phi visited)) < fuel" by simp
    from "2.hyps" [OF _ False fin U sub c] "2.prems"(3)
    obtain v' r' where
      "gatherNonPhisDefs_loop fuel g (defuse (g phi)) (set_insert phi visited, ret) = Ok (v', r')"
      "set (set_insert phi visited) \<subseteq> set v'" "set v' \<subseteq> U"
      "\<forall>n \<in> set r'. n \<in> set ret \<or> ntype (g n) \<noteq> PHI"
      by auto
    with False "2.prems"(3) show ?thesis by auto
  qed
next
  case (3 fuel g visited ret)
  then show ?case by simp
next
  case (4 fuel g n rest visited ret)
  note fin = "4.prems"(1) and U = "4.prems"(2)
  show ?case
  proof (cases "ntype (g n) = PHI")
    case False
    from "4.hyps"(1) [OF False "4.prems"] obtain v' r' where
      "gatherNonPhisDefs_loop fuel g rest (visited, set_insert n ret) = Ok (v', r')"
      "set visited \<subseteq> set v'" "set v' \<subseteq> U"
      "\<forall>m \<in> set r'. m \<in> set (set_insert n ret) \<or> ntype (g m) \<noteq> PHI"
      by auto
    with False show ?thesis by auto
  next
    case True
    then have nn: "\<not> ntype (g n) \<noteq> PHI" by simp
    from "4.hyps"(2) [OF nn fin U True "4.prems"(3,4)] obtain v1 r1 where
      r1: "recGatherNonPhisDefs fuel g n (visited, ret) = Ok (v1, r1)"
        "set visited \<subseteq> set v1" "set v1 \<subseteq> U"
        "\<forall>m \<in> set r1. m \<in> set ret \<or> ntype (g m) \<noteq> PHI"
      by auto
    have "card (U - set v1) \<le> card (U - set visited)"
      using r1(2) fin by (intro card_mono) auto
    with "4.prems"(4) have c: "card (U - set v1) < fuel" by simp
    from "4.hyps"(3) [OF nn r1(1) fin U r1(3) c] obtain v' r' where
      "gatherNonPhisDefs_loop fuel g rest (v1, r1) = Ok (v', r')"
      "set v1 \<subseteq> set v'" "set v' \<subseteq> U"
      "\<forall>m \<in> set r'. m \<in> set r1 \<or> ntype (g m) \<noteq> PHI"
      by auto
    with True r1 show ?thesis by auto
  qed
qed


lemma getSinglePredecessor_in_preds:
  "getSinglePredecessor blk = Some q \<Longrightarrow> Some q \<in> set (predecessors blk)"
  by (auto simp: getSinglePredecessor_def split: list.splits)

lemma walker_terminates:
  shows "finite UB \<Longrightarrow> \<forall>b q. Some q \<in> set (predecessors (bs b)) \<longrightarrow> q \<in> UB \<Longrightarrow>
         \<forall>q. from = Some q \<longrightarrow> q \<in> UB \<Longrightarrow>
         set (snd s) \<subseteq> UB \<Longrightarrow> card (UB - set (snd s)) < fuel \<Longrightarrow>
         \<exists>f' v'. findAllReachingDefinitions_block fuel bs dm from s = Ok (f', v') \<and>
                 set (snd s) \<subseteq> set v' \<and> set v' \<subseteq> UB"
    and "finite UB \<Longrightarrow> \<forall>b q. Some q \<in> set (predecessors (bs b)) \<longrightarrow> q \<in> UB \<Longrightarrow>
         \<forall>q. Some q \<in> set ps \<longrightarrow> q \<in> UB \<Longrightarrow>
         set (snd s) \<subseteq> UB \<Longrightarrow> card (UB - set (snd s)) < fuel \<Longrightarrow>
         \<exists>f' v'. findAllReachingDefinitions_preds fuel bs dm ps s = Ok (f', v') \<and>
                 set (snd s) \<subseteq> set v' \<and> set v' \<subseteq> UB"
proof (induction fuel bs dm "from" s and fuel bs dm ps s
    rule: findAllReachingDefinitions_block_findAllReachingDefinitions_preds.induct)
  case (1 fuel bs dm foundDefs visitedBlocks)
  then show ?case by simp
next
  case (2 bs dm "from" foundDefs visitedBlocks)
  then show ?case by simp
next
  case (3 fuel bs dm "from" foundDefs visitedBlocks)
  note fin = "3.prems"(1) and closed = "3.prems"(2)
  show ?case
  proof (cases "from \<in> set visitedBlocks")
    case True
    with "3.prems" show ?thesis by simp
  next
    case False
    obtain dm' f1 where m: "fold mergeEntry (definitions (bs from)) (dm, foundDefs) = (dm', f1)"
      by (cases "fold mergeEntry (definitions (bs from)) (dm, foundDefs)") auto
    have fromU: "from \<in> UB" using "3.prems"(3) by simp
    have sub: "set (snd (f1, set_insert from visitedBlocks)) \<subseteq> UB"
      using "3.prems"(4) fromU by simp
    have "card (UB - set (set_insert from visitedBlocks)) < card (UB - set visitedBlocks)"
      using card_Diff_insert_less [OF fin fromU False] by simp
    with "3.prems"(5) have c: "card (UB - set (snd (f1, set_insert from visitedBlocks))) < fuel"
      by simp
    show ?thesis
    proof (cases "getSinglePredecessor (bs from)")
      case None
      have ps: "\<forall>q. Some q \<in> set (predecessors (bs from)) \<longrightarrow> q \<in> UB" using closed by blast
      from "3.IH"(1) [OF False m [symmetric] None fin closed ps sub c]
      show ?thesis using False m None by auto
    next
      case (Some sp)
      have "\<forall>q. Some sp = Some q \<longrightarrow> q \<in> UB"
        using closed getSinglePredecessor_in_preds [OF Some] by blast
      from "3.IH"(2) [OF False m [symmetric] Some fin closed this sub c]
      show ?thesis using False m Some by auto
    qed
  qed
next
  case (4 fuel bs dm s)
  then show ?case by (cases s) simp
next
  case (5 fuel bs dm I rest s)
  note fin = "5.prems"(1) and closed = "5.prems"(2)
  have "\<forall>q. I = Some q \<longrightarrow> q \<in> UB" using "5.prems"(3) by simp
  from "5.IH"(1) [OF fin closed this "5.prems"(4,5)] obtain f1 v1 where
    r1: "findAllReachingDefinitions_block fuel bs dm I s = Ok (f1, v1)"
      "set (snd s) \<subseteq> set v1" "set v1 \<subseteq> UB"
    by auto
  have "card (UB - set v1) \<le> card (UB - set (snd s))"
    using r1(2) fin by (intro card_mono) auto
  with "5.prems"(5) have c: "card (UB - set (snd (f1, v1))) < fuel" by simp
  have rest: "\<forall>q. Some q \<in> set rest \<longrightarrow> q \<in> UB" using "5.prems"(3) by simp
  from "5.IH"(2) [OF r1(1) fin closed rest _ c] r1(3) obtain f' v' where
    "findAllReachingDefinitions_preds fuel bs dm rest (f1, v1) = Ok (f', v')"
    "set v1 \<subseteq> set v'" "set v' \<subseteq> UB"
    by auto
  with r1 show ?case by auto
qed

lemma gatherNonPhisDefs_terminates:
  assumes "\<forall>n. ntype (g n) = PHI \<longrightarrow> n < N" and "N < fuel"
  shows "\<exists>r. gatherNonPhisDefs fuel g ns = Ok r \<and> (\<forall>n \<in> set r. ntype (g n) \<noteq> PHI)"
proof -
  let ?U = "{n. ntype (g n) = PHI}"
  have sub: "?U \<subseteq> {..<N}" using assms(1) by auto
  then have fin: "finite ?U" by (rule finite_subset) simp
  have "card ?U \<le> card {..<N}" using sub by (intro card_mono) auto
  with assms(2) have "card (?U - set []) < fuel" by simp
  from gather_terminates(2) [OF fin refl _ this, of ns "[]"]
  show ?thesis by (auto simp: gatherNonPhisDefs_def)
qed

section \<open>Steps of the local pass\<close>

lemma lvn_closedD:
  assumes "lvn_closed R A"
  shows "R s s" and "R s t \<Longrightarrow> R t u \<Longrightarrow> R s u"
    and "node \<in> A \<Longrightarrow> definedBy m \<subseteq> insert node (definedBy (definitions (bblocks s b))) \<Longrightarrow>
         R s (setDefinitions b m s)"
    and "node \<in> A \<Longrightarrow> R s (addDefuse node vs s)"
    and "createPhi b tg i s = Ok (p, s') \<Longrightarrow> R s s'"
  using assms unfolding lvn_closed_def by blast+

lemma definedBy_Nil [simp]: "definedBy [] = {}"
  by (simp add: definedBy_def)

lemma definedBy_Cons [simp]:
  "definedBy ((k, bs) # m) = (\<Union>b \<in> set bs. set (snd b)) \<union> definedBy m"
  by (simp add: definedBy_def)

lemma definedBy_offsets: "(\<Union>b \<in> set (offsets m t). set (snd b)) \<subseteq> definedBy m"
  by (induction m) (fastforce split: if_splits)+

lemma definedBy_setOffsets:
  "definedBy (setOffsets t bs m) \<subseteq> definedBy m \<union> (\<Union>b \<in> set bs. set (snd b))"
  by (induction m) (fastforce split: if_splits)+

lemma definedBy_get: "set (DefinitionsMap_get m ds) \<subseteq> definedBy m"
  using definedBy_offsets [of m "target ds"]
  by (auto simp: DefinitionsMap_get_def)

lemma definedBy_update: "definedBy (DefinitionsMap_update m ds v) \<subseteq> insert v (definedBy m)"
  using definedBy_offsets [of m "target ds"]
    definedBy_setOffsets [of "target ds" _ m]
  by (fastforce simp: DefinitionsMap_update_def splitKey_def split: if_splits)

lemma definedBy_add: "definedBy (DefinitionsMap_add m ds v) \<subseteq> insert v (definedBy m)"
  using definedBy_offsets [of m "target ds"]
    definedBy_setOffsets [of "target ds" _ m]
  by (fastforce simp: DefinitionsMap_add_def split: if_splits)

lemma definedBy_addAll: "definedBy (DefinitionsMap_addAll m v) \<subseteq> insert v (definedBy m)"
  by (fastforce simp: DefinitionsMap_addAll_def definedBy_def)

lemma findDefinitionsInBlock_loop_closed:
  assumes cl: "lvn_closed R A"
  shows "findDefinitionsInBlock_loop b t ivs (dfs, st) = Ok (r, st') \<Longrightarrow> R st st'"
proof (induction ivs arbitrary: dfs st)
  case Nil
  then show ?case by (simp add: lvn_closedD(1) [OF cl])
next
  case (Cons i ivs)
  from Cons.prems obtain p s1 where c: "createPhi b t i st = Ok (p, s1)"
    and l: "findDefinitionsInBlock_loop b t ivs (dfs @ [p], s1) = Ok (r, st')"
    by (auto split: result.splits)
  from lvn_closedD(5) [OF cl c] Cons.IH [OF l] show ?case
    by (rule lvn_closedD(2) [OF cl])
qed

lemma findDefinitionsInBlock_closed:
  assumes "lvn_closed R A" and "findDefinitionsInBlock b ds st = Ok (r, st')"
  shows "R st st'"
  using assms(2) findDefinitionsInBlock_loop_closed [OF assms(1)]
  by (simp add: findDefinitionsInBlock_def Let_def)

lemma performLvn_overwrites_closed:
  assumes cl: "lvn_closed R A" and "node \<in> A"
  shows "performLvn_overwrites b node dss st = Ok st' \<Longrightarrow> R st st'"
proof (induction dss arbitrary: st)
  case Nil
  then show ?case by (simp add: lvn_closedD(1) [OF cl])
next
  case (Cons ds dss)
  let ?s1 = "setDefinitions b (DefinitionsMap_update (definitions (bblocks st b)) ds node) st"
  from Cons.prems have l: "performLvn_overwrites b node dss ?s1 = Ok st'"
    by (simp split: if_splits)
  have "R st ?s1"
    by (rule lvn_closedD(3) [OF cl assms(2)]) (rule definedBy_update)
  from this Cons.IH [OF l] show ?case by (rule lvn_closedD(2) [OF cl])
qed

lemma performLvn_defs_closed:
  assumes cl: "lvn_closed R A" and "node \<in> A"
  shows "performLvn_defs b node dss st = Ok st' \<Longrightarrow> R st st'"
proof (induction dss arbitrary: st)
  case Nil
  then show ?case by (simp add: lvn_closedD(1) [OF cl])
next
  case (Cons ds dss)
  show ?case
  proof (cases "target_isUnknown (target ds)")
    case True
    let ?m = "DefinitionsMap_add (DefinitionsMap_addAll (definitions (bblocks st b)) node)
                \<lparr>target = target ds, offset = Off 0, dlen = UNKNOWN\<rparr> node"
    from Cons.prems True have l: "performLvn_defs b node dss (setDefinitions b ?m st) = Ok st'"
      by simp
    have "definedBy ?m \<subseteq> insert node (definedBy (definitions (bblocks st b)))"
      using definedBy_add [of "DefinitionsMap_addAll (definitions (bblocks st b)) node" _ node]
        definedBy_addAll [of "definitions (bblocks st b)" node]
      by blast
    from lvn_closedD(3) [OF cl assms(2) this] Cons.IH [OF l] show ?thesis
      by (rule lvn_closedD(2) [OF cl])
  next
    case False
    with Cons.prems obtain found s1 where f: "findDefinitionsInBlock b ds st = Ok (found, s1)"
      and l: "performLvn_defs b node dss
                (setDefinitions b (DefinitionsMap_add (definitions (bblocks (addDefuse node found s1) b)) ds node)
                   (addDefuse node found s1)) = Ok st'"
      by (auto simp: Let_def split: result.splits)
    have 1: "R st s1" by (rule findDefinitionsInBlock_closed [OF cl f])
    have 2: "R s1 (addDefuse node found s1)" by (rule lvn_closedD(4) [OF cl assms(2)])
    have 3: "R (addDefuse node found s1)
               (setDefinitions b (DefinitionsMap_add (definitions (bblocks (addDefuse node found s1) b)) ds node)
                   (addDefuse node found s1))"
      by (rule lvn_closedD(3) [OF cl assms(2)]) (rule definedBy_add)
    from 1 2 3 Cons.IH [OF l] show ?thesis
      by (blast intro: lvn_closedD(2) [OF cl])
  qed
qed

lemma performLvn_uses_closed:
  assumes cl: "lvn_closed R A" and "node \<in> A"
  shows "performLvn_uses b node dss st = Ok st' \<Longrightarrow> R st st'"
proof (induction dss arbitrary: st)
  case Nil
  then show ?case by (simp add: lvn_closedD(1) [OF cl])
next
  case (Cons ds dss)
  from Cons.prems obtain found s1 where f: "findDefinitionsInBlock b ds st = Ok (found, s1)"
    and l: "performLvn_uses b node dss (addDefuse node found s1) = Ok st'"
    by (auto split: result.splits)
  have 1: "R st s1" by (rule findDefinitionsInBlock_closed [OF cl f])
  have 2: "R s1 (addDefuse node found s1)" by (rule lvn_closedD(4) [OF cl assms(2)])
  from 1 2 Cons.IH [OF l] show ?case
    by (blast intro: lvn_closedD(2) [OF cl])
qed

lemma performLvn_node_closed:
  assumes cl: "lvn_closed R A" and "node \<in> A" and "performLvn_node b node st = Ok st'"
  shows "R st st'"
proof -
  from assms(3) obtain s1 s2 where
    1: "performLvn_overwrites b node (overwrites (rwnodes st node)) st = Ok s1" and
    2: "performLvn_defs b node (defs (rwnodes s1 node)) s1 = Ok s2" and
    3: "performLvn_uses b node (uses (rwnodes s2 node)) s2 = Ok st'"
    by (auto simp: performLvn_node_def split: result.splits)
  from performLvn_overwrites_closed [OF cl assms(2) 1] performLvn_defs_closed [OF cl assms(2) 2]
    performLvn_uses_closed [OF cl assms(2) 3]
  show ?thesis by (blast intro: lvn_closedD(2) [OF cl])
qed

lemma performLvn_nodes_closed:
  assumes cl: "lvn_closed R A"
  shows "set ns \<subseteq> A \<Longrightarrow> performLvn_nodes b ns st = Ok st' \<Longrightarrow> R st st'"
proof (induction ns arbitrary: st)
  case Nil
  then show ?case by (simp add: lvn_closedD(1) [OF cl])
next
  case (Cons n ns)
  from Cons.prems(2) obtain s1 where 1: "performLvn_node b n st = Ok s1"
    and 2: "performLvn_nodes b ns s1 = Ok st'"
    by (auto split: result.splits)
  from Cons.prems(1) have "n \<in> A" "set ns \<subseteq> A" by auto
  from performLvn_node_closed [OF cl this(1) 1] Cons.IH [OF this(2) 2]
  show ?case by (rule lvn_closedD(2) [OF cl])
qed

lemma performLvn_graph_closed:
  assumes cl: "lvn_closed R UNIV" and "performLvn_graph st = Ok st'"
  shows "R st st'"
proof -
  have "performLvn_blocks bs s = Ok st' \<Longrightarrow> R s st'" for bs s
  proof (induction bs arbitrary: s)
    case Nil
    then show ?case by (simp add: lvn_closedD(1) [OF cl])
  next
    case (Cons b bs)
    from Cons.prems obtain s1 where 1: "performLvn_nodes b (nodes (bblocks s b)) s = Ok s1"
      and 2: "performLvn_blocks bs s1 = Ok st'"
      by (auto simp: performLvn_def split: result.splits)
    from performLvn_nodes_closed [OF cl _ 1] Cons.IH [OF 2]
    show ?case by (auto intro: lvn_closedD(2) [OF cl])
  qed
  with assms(2) show ?thesis by (simp add: performLvn_graph_def)
qed

section \<open>Registered PHIs have blocks\<close>

lemma placed_step_refl: "placed_step s s"
  by (simp add: placed_step_def)

lemma placed_step_trans: "placed_step s t \<Longrightarrow> placed_step t u \<Longrightarrow> placed_step s u"
  by (auto simp: placed_step_def)

lemma placed_step_createPhi:
  assumes "createPhi b t i s = Ok (p, s')"
  shows "placed_step s s'"
proof -
  note e = createPhi_effect [OF assms]
  have "bblock (rwnodes s' q) \<noteq> None" if "q = p \<or> bblock (rwnodes s q) \<noteq> None" for q
    using that e(5) [of q] e(6) by (cases "q = p") auto
  with e(3) show ?thesis by (auto simp: placed_step_def phis_placed_def)
qed

lemma placed_step_addDefuse: "placed_step s (addDefuse n vs s)"
  by (simp add: placed_step_def phis_placed_def addDefuse_def)

lemma placed_step_setDefinitions: "placed_step s (setDefinitions b m s)"
  by (simp add: placed_step_def phis_placed_def setDefinitions_def)

lemma placed_step_closed: "lvn_closed placed_step UNIV"
  unfolding lvn_closed_def
  using placed_step_refl placed_step_trans placed_step_createPhi placed_step_addDefuse
    placed_step_setDefinitions
  by blast

lemma findDefinitions_placed:
  assumes "findDefinitions fuel blk ds st = Ok (r, st')"
  shows "placed_step st st'"
  by (rule findDefinitions_preserves(1) [where R = placed_step, OF _ _ _ assms])
    (auto intro: placed_step_refl placed_step_trans placed_step_createPhi)

lemma findDefinitions_no_null:
  shows "findDefinitions fuel blk ds st \<noteq> Abort NullPointer"
    and "findDefinitions_loop fuel b ds ivs acc \<noteq> Abort NullPointer"
proof (induction fuel blk ds st and fuel b ds ivs acc
    rule: findDefinitions_findDefinitions_loop.induct)
  case (5 fuel b ds interval rest dfs st)
  show ?case
  proof (cases "getSinglePredecessor (bblocks st b)")
    case None
    with "5.IH"(1) [OF None] createPhi_not_fuel(2) [of b "target ds" interval st]
    show ?thesis by (auto split: result.splits error.splits)
  next
    case (Some pred)
    with "5.IH"(2) [OF Some] "5.IH"(3) [OF Some]
    show ?thesis by (auto split: result.splits error.splits)
  qed
qed (simp_all add: Let_def)

lemma performGvn_preds_placed:
  "set work \<subseteq> set (phis st) \<Longrightarrow>
   performGvn_preds fuel phi ds ps (work, st) \<noteq> Abort NullPointer \<and>
   (\<forall>work' st'. performGvn_preds fuel phi ds ps (work, st) = Ok (work', st') \<longrightarrow>
       placed_step st st' \<and> set work' \<subseteq> set (phis st'))"
proof (induction ps arbitrary: work st)
  case Nil
  then show ?case by (simp add: placed_step_refl)
next
  case (Cons I ps)
  show ?case
  proof (cases "findDefinitions fuel I ds st")
    case (Ok x)
    obtain found s1 where x: "x = (found, s1)" by (cases x)
    let ?w = "set_insert_all (drop (length (phis st)) (phis s1)) work"
    let ?s = "addDefuse phi found s1"
    from Ok x have p1: "placed_step st s1" by (simp add: findDefinitions_placed)
    have p2: "placed_step s1 ?s" by (rule placed_step_addDefuse)
    have p12: "placed_step st ?s" using p1 p2 by (rule placed_step_trans)
    have "set ?w \<subseteq> set (phis ?s)"
      using Cons.prems p1 set_drop_subset [of "length (phis st)" "phis s1"]
      by (auto simp: placed_step_def addDefuse_def)
    from Cons.IH [OF this] Ok x p12 show ?thesis
      by (auto simp: Let_def intro: placed_step_trans)
  next
    case (Abort e)
    with findDefinitions_no_null(1) [of fuel I ds st] show ?thesis by (simp add: Let_def)
  next
    case OutOfFuel
    then show ?thesis by (simp add: Let_def)
  qed
qed

lemma performGvn_loop_placed:
  "phis_placed st \<Longrightarrow> set work \<subseteq> set (phis st) \<Longrightarrow>
   performGvn_loop fuel work st \<noteq> Abort NullPointer \<and>
   (\<forall>st'. performGvn_loop fuel work st = Ok st' \<longrightarrow> phis_placed st')"
proof (induction fuel work st rule: performGvn_loop.induct)
  case (1 fuel st)
  then show ?case by simp
next
  case (2 phi work st)
  then show ?case by simp
next
  case (3 fuel phi work st)
  from "3.prems" have blk: "bblock (rwnodes st phi) \<noteq> None"
    by (simp add: phis_placed_def)
  then obtain block where b: "bblock (rwnodes st phi) = Some block" by auto
  have w: "set work \<subseteq> set (phis st)" using "3.prems"(2) by simp
  show ?case
  proof (cases "overwrites (rwnodes st phi)")
    case Nil
    then show ?thesis by simp
  next
    case (Cons ds rest)
    show ?thesis
    proof (cases rest)
      case (Cons a list)
      with \<open>overwrites (rwnodes st phi) = ds # rest\<close> show ?thesis by simp
    next
      case Nil
      with \<open>overwrites (rwnodes st phi) = ds # rest\<close>
      have ow: "overwrites (rwnodes st phi) = [ds]" by simp
      note pp = performGvn_preds_placed [OF w, of fuel phi ds "predecessors (bblocks st block)"]
      show ?thesis
      proof (cases "performGvn_preds fuel phi ds (predecessors (bblocks st block)) (work, st)")
        case (Ok x)
        obtain work' s1 where x: "x = (work', s1)" by (cases x)
        from pp Ok x have "placed_step st s1" "set work' \<subseteq> set (phis s1)" by auto
        with "3.prems"(1) have "phis_placed s1" by (simp add: placed_step_def)
        from "3.IH" [OF ow refl b Ok x [symmetric] this \<open>set work' \<subseteq> set (phis s1)\<close>]
        show ?thesis using ow b Ok x by simp
      next
        case (Abort e)
        with pp ow b show ?thesis by simp
      next
        case OutOfFuel
        with ow b show ?thesis by simp
      qed
    qed
  qed
qed

section \<open>A node and the definitions found for it\<close>

lemma untouched_closed: "lvn_closed (untouched n b0) (UNIV - {n})"
  unfolding lvn_closed_def
proof (intro conjI allI impI)
  fix s :: MemorySSATransformation
  show "untouched n b0 s s" by (simp add: untouched_def)
next
  fix s t u :: MemorySSATransformation
  assume "untouched n b0 s t" "untouched n b0 t u"
  then show "untouched n b0 s u" by (auto simp: untouched_def)
next
  fix b node m and s :: MemorySSATransformation
  assume "node \<in> UNIV - {n}"
    and "definedBy m \<subseteq> insert node (definedBy (definitions (bblocks s b)))"
  then show "untouched n b0 s (setDefinitions b m s)"
    by (auto simp: untouched_def setDefinitions_def)
next
  fix node vs and s :: MemorySSATransformation
  assume "node \<in> UNIV - {n}"
  then show "untouched n b0 s (addDefuse node vs s)"
    by (auto simp: untouched_def addDefuse_def)
next
  fix b t i p and s s' :: MemorySSATransformation
  assume c: "createPhi b t i s = Ok (p, s')"
  note e = createPhi_effect [OF c]
  show "untouched n b0 s s'"
  proof (cases "b0 = b")
    case True
    with e(1,2,8) e(5) [of n]
      definedBy_update [of "definitions (bblocks s b)" "\<lparr>target = t, offset = start i, dlen = len i\<rparr>" p]
    show ?thesis by (auto simp: untouched_def)
  next
    case False
    with e(1,2) e(5) [of n] e(7) [of b0] show ?thesis by (auto simp: untouched_def)
  qed
qed

lemma set_defuse_add [simp]: "set (defuse_add vs du) = set vs \<union> set du"
  unfolding defuse_add_def by (induction vs arbitrary: du) auto

lemma findDefinitionsInBlock_loop_found:
  "findDefinitionsInBlock_loop b t ivs (dfs, st) = Ok (r, st') \<Longrightarrow>
   set r \<subseteq> set dfs \<union> {k. next_node st \<le> k} \<and> next_node st \<le> next_node st' \<and>
   (\<forall>k < next_node st. rwnodes st' k = rwnodes st k)"
proof (induction ivs arbitrary: dfs st)
  case Nil
  then show ?case by simp
next
  case (Cons i ivs)
  from Cons.prems obtain p s1 where c: "createPhi b t i st = Ok (p, s1)"
    and l: "findDefinitionsInBlock_loop b t ivs (dfs @ [p], s1) = Ok (r, st')"
    by (auto split: result.splits)
  note e = createPhi_effect [OF c]
  from Cons.IH [OF l] e(1,2) e(5) show ?case by auto
qed

lemma performLvn_nodes_append:
  "performLvn_nodes b (xs @ ys) st = Ok st' \<longleftrightarrow>
   (\<exists>s1. performLvn_nodes b xs st = Ok s1 \<and> performLvn_nodes b ys s1 = Ok st')"
  by (induction xs arbitrary: st) (auto split: result.splits)

text \<open>Intervals inside intervals.\<close>

lemma Offset_le_refl [simp]: "Offset_le x x"
  by (cases x) auto

lemma Offset_le_trans: "Offset_le x y \<Longrightarrow> Offset_le y z \<Longrightarrow> Offset_le x z"
  by (cases x; cases y; cases z) auto

lemma isSubsetOf_refl [simp]: "isSubsetOf k k"
  by (simp add: isSubsetOf_def)

lemma isSubsetOf_trans: "isSubsetOf a b \<Longrightarrow> isSubsetOf b c \<Longrightarrow> isSubsetOf a c"
  unfolding isSubsetOf_def by (blast intro: Offset_le_trans)

lemma isSubsetOf_overlaps: "isSubsetOf k r \<Longrightarrow> overlaps k d \<Longrightarrow> overlaps r d"
  by (cases "start k"; cases "len k"; cases "start r"; cases "len r"; cases "start d"; cases "len d")
    (auto simp: isSubsetOf_def overlaps_def isUnknown_def Offset_isUnknown_def Offset_lt_def
      split: if_splits)

lemma outside_subset: "r \<in> set (outside ki k) \<Longrightarrow> overlaps k ki \<Longrightarrow> isSubsetOf r k"
  by (cases "start k"; cases "len k"; cases "start ki"; cases "len ki")
    (auto simp: isSubsetOf_def overlaps_def isUnknown_def Offset_isUnknown_def Offset_lt_def
      outside_def Interval_end_def split: if_splits)

lemma splitKey_subset: "c \<in> set (splitKey ki b) \<Longrightarrow> isSubsetOf (fst c) (fst b) \<and> snd c = snd b"
  by (auto simp: splitKey_def outside_subset split: if_splits)

lemma uncoveredFrom_subset:
  "r \<in> set (uncoveredFrom cur e rs) \<Longrightarrow>
   Offset_le cur (start r) \<and> Offset_le (Offset_plus (start r) (len r)) e"
proof (induction cur e rs rule: uncoveredFrom.induct)
  case (1 cur e)
  then show ?case
    by (cases cur; cases e) (auto simp: Offset_lt_def split: if_splits)
next
  case (2 cur e ks ke rest)
  show ?case
  proof (cases "Offset_lt cur e")
    case False
    with "2.prems" show ?thesis by simp
  next
    case True
    from "2.prems" True consider
      (a) "Offset_lt cur ks" "r = \<lparr>start = cur, len = Offset_minus (if Offset_le ks e then ks else e) cur\<rparr>"
      | (b) "r \<in> set (uncoveredFrom (if Offset_le ke cur then cur else ke) e rest)"
      by (auto split: if_splits)
    then show ?thesis
    proof cases
      case a
      with True show ?thesis
        by (cases cur; cases e; cases ks) (auto simp: Offset_lt_def split: if_splits)
    next
      case b
      from "2.IH" [OF True b] show ?thesis
        by (cases cur; cases ke; cases "start r") (auto split: if_splits)
    qed
  qed
qed

lemma undefinedIntervals_subset:
  "i \<in> set (undefinedIntervals m ds) \<Longrightarrow> isSubsetOf i (getInterval ds)"
  by (auto simp: undefinedIntervals_def Let_def isSubsetOf_def dest: uncoveredFrom_subset
      split: if_splits)


text \<open>The keys of the map along the steps of a node.\<close>

lemma Interval_eta [simp]: "\<lparr>start = start i, len = len i\<rparr> = (i :: Interval)"
  by (cases i) simp

lemma keysWithin_carried: "keysWithin n m0 C m \<Longrightarrow> carried n C m"
  unfolding keysWithin_def carried_def by blast

lemma keysWithin_mono:
  assumes "keysWithin n m0 C m" and "set C \<subseteq> set C'"
    and "\<forall>c \<in> set C'. \<not> target_isUnknown (fst c)"
  shows "keysWithin n m0 C' m"
  using assms unfolding keysWithin_def by blast

lemma keysWithin_init:
  assumes "n \<notin> definedBy m0"
  shows "keysWithin n m0 [] m0"
proof -
  have "n \<notin> set (snd kv)" if "kv \<in> set (offsets m0 t)" for kv t
    using assms that definedBy_offsets [of m0 t] by auto
  moreover have "\<exists>b0 \<in> set (offsets m0 t). isSubsetOf (fst kv) (fst b0)"
    if "kv \<in> set (offsets m0 t)" for kv t
    using that isSubsetOf_refl by blast
  ultimately show ?thesis unfolding keysWithin_def by simp
qed

lemma carried_get:
  assumes "carried n C m" and "\<forall>c \<in> set C. \<not> hits ds c"
  shows "n \<notin> set (DefinitionsMap_get m ds)"
proof
  assume "n \<in> set (DefinitionsMap_get m ds)"
  then obtain kv where kv: "kv \<in> set (offsets m (target ds))"
    "overlaps (fst kv) (getInterval ds)" "n \<in> set (snd kv)"
    by (auto simp: DefinitionsMap_get_def)
  with assms(1) obtain c where c: "c \<in> set C" "fst c = target ds" "isSubsetOf (fst kv) (snd c)"
    unfolding carried_def by blast
  from isSubsetOf_overlaps [OF c(3) kv(2)] c(1,2) assms(2) show False
    by (auto simp: hits_def)
qed

lemma carried_get_unknown:
  assumes "carried n C m"
  shows "n \<notin> set (DefinitionsMap_get m unknownMemory)"
proof
  assume "n \<in> set (DefinitionsMap_get m unknownMemory)"
  then obtain kv where kv: "kv \<in> set (offsets m UNKNOWN_MEMORY)" "n \<in> set (snd kv)"
    by (auto simp: DefinitionsMap_get_def unknownMemory_def)
  with assms obtain c where "c \<in> set C" "fst c = UNKNOWN_MEMORY"
    unfolding carried_def by blast
  with assms show False by (auto simp: carried_def target_isUnknown_def)
qed

lemma keysWithin_update:
  assumes k: "keysWithin n m0 C m"
    and c: "\<exists>c \<in> set C. fst c = target ds \<and> isSubsetOf (getInterval ds) (snd c)"
  shows "keysWithin n m0 C (DefinitionsMap_update m ds v)"
  unfolding keysWithin_def
proof (intro conjI allI ballI)
  fix c assume "c \<in> set C"
  with k show "\<not> target_isUnknown (fst c)" by (simp add: keysWithin_def)
next
  fix t kv
  assume kv: "kv \<in> set (offsets (DefinitionsMap_update m ds v) t)"
  let ?goal = "(\<exists>c \<in> set C. fst c = t \<and> isSubsetOf (fst kv) (snd c)) \<or>
        (n \<notin> set (snd kv) \<and> (\<exists>b0 \<in> set (offsets m0 t). isSubsetOf (fst kv) (fst b0)))"
  show ?goal
  proof (cases "t = target ds")
    case False
    with kv have "kv \<in> set (offsets m t)" by (simp add: DefinitionsMap_update_def)
    with k show ?thesis unfolding keysWithin_def by blast
  next
    case True
    with kv consider (old) b where "b \<in> set (offsets m t)" "kv \<in> set (splitKey (getInterval ds) b)"
      | (new) "kv = (getInterval ds, [v])"
      by (auto simp: DefinitionsMap_update_def)
    then show ?thesis
    proof cases
      case old
      from splitKey_subset [OF old(2)] have s: "isSubsetOf (fst kv) (fst b)" "snd kv = snd b"
        by auto
      from k old(1) consider
        (c) c where "c \<in> set C" "fst c = t" "isSubsetOf (fst b) (snd c)"
        | (z) b0 where "n \<notin> set (snd b)" "b0 \<in> set (offsets m0 t)" "isSubsetOf (fst b) (fst b0)"
        unfolding keysWithin_def by blast
      then show ?thesis
      proof cases
        case c
        from isSubsetOf_trans [OF s(1) c(3)] c(1,2) show ?thesis by blast
      next
        case z
        from isSubsetOf_trans [OF s(1) z(3)] z(1,2) s(2) show ?thesis by auto
      qed
    next
      case new
      with c True show ?thesis by auto
    qed
  qed
qed

lemma carried_update:
  assumes k: "carried n C m" and v: "v \<noteq> n"
  shows "carried n C (DefinitionsMap_update m ds v)"
  unfolding carried_def
proof (intro conjI allI ballI impI)
  fix c assume "c \<in> set C"
  with k show "\<not> target_isUnknown (fst c)" by (simp add: carried_def)
next
  fix t kv
  assume kv: "kv \<in> set (offsets (DefinitionsMap_update m ds v) t)" and n: "n \<in> set (snd kv)"
  show "\<exists>c \<in> set C. fst c = t \<and> isSubsetOf (fst kv) (snd c)"
  proof (cases "t = target ds")
    case False
    with kv have "kv \<in> set (offsets m t)" by (simp add: DefinitionsMap_update_def)
    with k n show ?thesis unfolding carried_def by blast
  next
    case True
    with kv n v obtain b where b: "b \<in> set (offsets m t)" "kv \<in> set (splitKey (getInterval ds) b)"
      by (auto simp: DefinitionsMap_update_def)
    from splitKey_subset [OF b(2)] have s: "isSubsetOf (fst kv) (fst b)" "snd kv = snd b"
      by auto
    with n have "n \<in> set (snd b)" by simp
    with k b(1) obtain c where "c \<in> set C" "fst c = t" "isSubsetOf (fst b) (snd c)"
      unfolding carried_def by blast
    with s(1) show ?thesis by (blast intro: isSubsetOf_trans)
  qed
qed

lemma keysWithin_add:
  assumes k: "keysWithin n m0 C m" and w: "set (weakCarriers m0 d) \<subseteq> set C"
  shows "keysWithin n m0 C (DefinitionsMap_add m d n)"
  unfolding keysWithin_def
proof (intro conjI allI ballI)
  fix c assume "c \<in> set C"
  with k show "\<not> target_isUnknown (fst c)" by (simp add: keysWithin_def)
next
  fix t kv
  assume kv: "kv \<in> set (offsets (DefinitionsMap_add m d n) t)"
  let ?goal = "(\<exists>c \<in> set C. fst c = t \<and> isSubsetOf (fst kv) (snd c)) \<or>
        (n \<notin> set (snd kv) \<and> (\<exists>b0 \<in> set (offsets m0 t). isSubsetOf (fst kv) (fst b0)))"
  from w have self: "(target d, getInterval d) \<in> set C" by (simp add: weakCarriers_def)
  show ?goal
  proof (cases "t = target d")
    case False
    with kv have "kv \<in> set (offsets m t)" by (simp add: DefinitionsMap_add_def)
    with k show ?thesis unfolding keysWithin_def by blast
  next
    case True
    with kv consider (same) "kv \<in> set (offsets m t)" "\<not> overlaps (fst kv) (getInterval d)"
      | (merged) b where "b \<in> set (offsets m t)" "overlaps (fst b) (getInterval d)" "fst kv = fst b"
      | (new) i where "i \<in> set (undefinedIntervals m d)" "fst kv = i"
      by (auto simp: DefinitionsMap_add_def split: if_splits)
    then show ?thesis
    proof cases
      case same
      with k show ?thesis unfolding keysWithin_def by blast
    next
      case merged
      from k merged(1) consider
        (c) c where "c \<in> set C" "fst c = t" "isSubsetOf (fst b) (snd c)"
        | (z) b0 where "b0 \<in> set (offsets m0 t)" "isSubsetOf (fst b) (fst b0)"
        unfolding keysWithin_def by blast
      then show ?thesis
      proof cases
        case c
        with merged(3) show ?thesis by auto
      next
        case z
        from isSubsetOf_overlaps [OF z(2) merged(2)] z(1) True
        have "(target d, fst b0) \<in> set (weakCarriers m0 d)" by (auto simp: weakCarriers_def)
        with w have "(target d, fst b0) \<in> set C" by blast
        with z(2) merged(3) True show ?thesis by force
      qed
    next
      case new
      from undefinedIntervals_subset [OF new(1)] new(2) self True show ?thesis by force
    qed
  qed
qed

lemma findDefinitionsInBlock_loop_within:
  "findDefinitionsInBlock_loop b t ivs (dfs, st) = Ok (r, st') \<Longrightarrow>
   keysWithin n m0 C (definitions (bblocks st b)) \<Longrightarrow>
   \<forall>i \<in> set ivs. \<exists>c \<in> set C. fst c = t \<and> isSubsetOf i (snd c) \<Longrightarrow>
   keysWithin n m0 C (definitions (bblocks st' b))"
proof (induction ivs arbitrary: dfs st)
  case Nil
  then show ?case by simp
next
  case (Cons i ivs)
  from Cons.prems(1) obtain p s1 where c: "createPhi b t i st = Ok (p, s1)"
    and l: "findDefinitionsInBlock_loop b t ivs (dfs @ [p], s1) = Ok (r, st')"
    by (auto split: result.splits)
  note e = createPhi_effect [OF c]
  from Cons.prems(3) have "\<exists>c \<in> set C. fst c = t \<and> isSubsetOf i (snd c)" by simp
  then have "keysWithin n m0 C (DefinitionsMap_update (definitions (bblocks st b))
      \<lparr>target = t, offset = start i, dlen = len i\<rparr> p)"
    by (intro keysWithin_update [OF Cons.prems(2)]) (simp add: getInterval_def)
  with e(8) have "keysWithin n m0 C (definitions (bblocks s1 b))" by simp
  from Cons.IH [OF l this] Cons.prems(3) show ?case by simp
qed

lemma findDefinitionsInBlock_loop_carried:
  "findDefinitionsInBlock_loop b t ivs (dfs, st) = Ok (r, st') \<Longrightarrow>
   carried n C (definitions (bblocks st b)) \<Longrightarrow> n < next_node st \<Longrightarrow>
   carried n C (definitions (bblocks st' b))"
proof (induction ivs arbitrary: dfs st)
  case Nil
  then show ?case by simp
next
  case (Cons i ivs)
  from Cons.prems(1) obtain p s1 where c: "createPhi b t i st = Ok (p, s1)"
    and l: "findDefinitionsInBlock_loop b t ivs (dfs @ [p], s1) = Ok (r, st')"
    by (auto split: result.splits)
  note e = createPhi_effect [OF c]
  from e(1) Cons.prems(3) have "p \<noteq> n" by simp
  from carried_update [OF Cons.prems(2) this] e(8)
  have "carried n C (definitions (bblocks s1 b))" by simp
  from Cons.IH [OF l this] Cons.prems(3) e(2) show ?case by simp
qed

text \<open>A lookup for a def-site of \<open>n\<close> that hits no carrier does not find \<open>n\<close>.\<close>

lemma findDefinitionsInBlock_clear:
  assumes f: "findDefinitionsInBlock b ds st = Ok (found, st')"
    and c: "carried n C (definitions (bblocks st b))"
    and h: "\<forall>c \<in> set C. \<not> hits ds c"
    and n: "n < next_node st"
  shows "n \<notin> set found" "n < next_node st'" "rwnodes st' n = rwnodes st n"
    "carried n C (definitions (bblocks st' b))"
proof -
  let ?m = "definitions (bblocks st b)"
  from f have l: "findDefinitionsInBlock_loop b (target ds) (undefinedIntervals ?m ds)
      (DefinitionsMap_get ?m ds @ DefinitionsMap_get ?m unknownMemory, st) = Ok (found, st')"
    by (simp add: findDefinitionsInBlock_def Let_def)
  from findDefinitionsInBlock_loop_found [OF l] n
  have fo: "set found \<subseteq> set (DefinitionsMap_get ?m ds) \<union> set (DefinitionsMap_get ?m unknownMemory)
              \<union> {k. next_node st \<le> k}"
    and nx: "next_node st \<le> next_node st'" and same: "rwnodes st' n = rwnodes st n"
    by auto
  from fo carried_get [OF c h] carried_get_unknown [OF c] n show "n \<notin> set found" by auto
  from nx n show "n < next_node st'" by simp
  from same show "rwnodes st' n = rwnodes st n" .
  from findDefinitionsInBlock_loop_carried [OF l c n]
  show "carried n C (definitions (bblocks st' b))" .
qed

lemma findDefinitionsInBlock_within:
  assumes f: "findDefinitionsInBlock b ds st = Ok (found, st')"
    and k: "keysWithin n m0 C (definitions (bblocks st b))"
    and s: "(target ds, getInterval ds) \<in> set C"
  shows "keysWithin n m0 C (definitions (bblocks st' b))"
proof -
  let ?m = "definitions (bblocks st b)"
  from f have l: "findDefinitionsInBlock_loop b (target ds) (undefinedIntervals ?m ds)
      (DefinitionsMap_get ?m ds @ DefinitionsMap_get ?m unknownMemory, st) = Ok (found, st')"
    by (simp add: findDefinitionsInBlock_def Let_def)
  have "\<forall>i \<in> set (undefinedIntervals ?m ds). \<exists>c \<in> set C. fst c = target ds \<and> isSubsetOf i (snd c)"
    using s undefinedIntervals_subset [of _ ?m ds] by force
  from findDefinitionsInBlock_loop_within [OF l k this] show ?thesis .
qed

lemma performLvn_overwrites_within:
  "performLvn_overwrites b n ws s = Ok s' \<Longrightarrow> keysWithin n m0 C (definitions (bblocks s b)) \<Longrightarrow>
   keysWithin n m0 (C @ map strongCarrier ws) (definitions (bblocks s' b)) \<and>
   rwnodes s' = rwnodes s \<and> next_node s' = next_node s"
proof (induction ws arbitrary: s C)
  case Nil
  then show ?case by simp
next
  case (Cons w ws)
  let ?s = "setDefinitions b (DefinitionsMap_update (definitions (bblocks s b)) w n) s"
  from Cons.prems(1) have known: "\<not> target_isUnknown (target w)"
    and r: "performLvn_overwrites b n ws ?s = Ok s'"
    by (auto split: if_splits)
  from Cons.prems(2) known have "keysWithin n m0 (C @ [strongCarrier w]) (definitions (bblocks s b))"
    by (intro keysWithin_mono [OF Cons.prems(2)]) (auto simp: keysWithin_def strongCarrier_def)
  then have "keysWithin n m0 (C @ [strongCarrier w])
      (DefinitionsMap_update (definitions (bblocks s b)) w n)"
    by (rule keysWithin_update) (simp add: strongCarrier_def)
  then have "keysWithin n m0 (C @ [strongCarrier w]) (definitions (bblocks ?s b))"
    by (simp add: setDefinitions_def)
  from Cons.IH [OF r this] show ?case by (simp add: setDefinitions_def)
qed

lemma performLvn_defs_unknown:
  "performLvn_defs b n dfs s = Ok s' \<Longrightarrow> \<forall>d \<in> set dfs. target_isUnknown (target d) \<Longrightarrow>
   rwnodes s' = rwnodes s \<and> next_node s' = next_node s"
proof (induction dfs arbitrary: s)
  case Nil
  then show ?case by simp
next
  case (Cons d dfs)
  from Cons.prems have "performLvn_defs b n dfs
      (setDefinitions b
         (DefinitionsMap_add (DefinitionsMap_addAll (definitions (bblocks s b)) n)
            \<lparr>target = target d, offset = Off 0, dlen = UNKNOWN\<rparr> n) s) = Ok s'"
    by simp
  from Cons.IH [OF this] Cons.prems(2) show ?case by (simp add: setDefinitions_def)
qed

lemma performLvn_uses_clear:
  "performLvn_uses b n uss s = Ok s' \<Longrightarrow> carried n C (definitions (bblocks s b)) \<Longrightarrow>
   \<forall>u \<in> set uss. \<forall>c \<in> set C. \<not> hits u c \<Longrightarrow> n < next_node s \<Longrightarrow>
   n \<notin> set (defuse (rwnodes s n)) \<Longrightarrow>
   n < next_node s' \<and> n \<notin> set (defuse (rwnodes s' n))"
proof (induction uss arbitrary: s)
  case Nil
  then show ?case by simp
next
  case (Cons u uss)
  from Cons.prems(1) obtain found s1 where f: "findDefinitionsInBlock b u s = Ok (found, s1)"
    and r: "performLvn_uses b n uss (addDefuse n found s1) = Ok s'"
    by (auto split: result.splits)
  from Cons.prems(3) have h: "\<forall>c \<in> set C. \<not> hits u c" by simp
  note fc = findDefinitionsInBlock_clear [OF f Cons.prems(2) h Cons.prems(4)]
  let ?s = "addDefuse n found s1"
  from fc have 1: "carried n C (definitions (bblocks ?s b))" "n < next_node ?s"
    by (simp_all add: addDefuse_def)
  from fc Cons.prems(5) have 2: "n \<notin> set (defuse (rwnodes ?s n))"
    by (simp add: addDefuse_def)
  from Cons.IH [OF r 1(1) _ 1(2) 2] Cons.prems(3) show ?case by simp
qed

lemma performLvn_defs_clear:
  "performLvn_defs b n dfs s = Ok s2 \<Longrightarrow> performLvn_uses b n uss s2 = Ok s3 \<Longrightarrow>
   keysWithin n m0 C (definitions (bblocks s b)) \<Longrightarrow> selfClear_defs m0 C dfs uss \<Longrightarrow>
   n < next_node s \<Longrightarrow> n \<notin> set (defuse (rwnodes s n)) \<Longrightarrow>
   n < next_node s3 \<and> n \<notin> set (defuse (rwnodes s3 n))"
proof (induction dfs arbitrary: s C)
  case Nil
  from Nil.prems(1) have "s2 = s" by simp
  with performLvn_uses_clear [OF Nil.prems(2), of C] keysWithin_carried [OF Nil.prems(3)]
    Nil.prems(4,5,6)
  show ?case by simp
next
  case (Cons d dfs)
  show ?case
  proof (cases "target_isUnknown (target d)")
    case True
    with Cons.prems(4) have u: "\<forall>d' \<in> set (d # dfs). target_isUnknown (target d')" "uss = []"
      by auto
    from performLvn_defs_unknown [OF Cons.prems(1) u(1)] u(2) Cons.prems(2,5,6)
    show ?thesis by simp
  next
    case False
    let ?C = "C @ weakCarriers m0 d"
    from False Cons.prems(4) have h: "\<forall>c \<in> set C. \<not> hits d c"
      and sc: "selfClear_defs m0 ?C dfs uss" by auto
    from False Cons.prems(1) obtain found s1 where f: "findDefinitionsInBlock b d s = Ok (found, s1)"
      and r: "performLvn_defs b n dfs
                (setDefinitions b
                   (DefinitionsMap_add (definitions (bblocks (addDefuse n found s1) b)) d n)
                   (addDefuse n found s1)) = Ok s2"
      by (auto simp: Let_def split: result.splits)
    note fc = findDefinitionsInBlock_clear
      [OF f keysWithin_carried [OF Cons.prems(3)] h Cons.prems(5)]
    from Cons.prems(3) False have k: "keysWithin n m0 ?C (definitions (bblocks s b))"
      by (intro keysWithin_mono [OF Cons.prems(3)])
        (auto simp: keysWithin_def weakCarriers_def)
    have "keysWithin n m0 ?C (definitions (bblocks s1 b))"
      by (rule findDefinitionsInBlock_within [OF f k]) (simp add: weakCarriers_def)
    then have "keysWithin n m0 ?C (DefinitionsMap_add (definitions (bblocks s1 b)) d n)"
      by (rule keysWithin_add) simp
    let ?s = "setDefinitions b
                   (DefinitionsMap_add (definitions (bblocks (addDefuse n found s1) b)) d n)
                   (addDefuse n found s1)"
    from \<open>keysWithin n m0 ?C (DefinitionsMap_add (definitions (bblocks s1 b)) d n)\<close>
    have 1: "keysWithin n m0 ?C (definitions (bblocks ?s b))"
      by (simp add: setDefinitions_def addDefuse_def)
    from fc have 2: "n < next_node ?s" by (simp add: setDefinitions_def addDefuse_def)
    from fc Cons.prems(6) have 3: "n \<notin> set (defuse (rwnodes ?s n))"
      by (simp add: setDefinitions_def addDefuse_def)
    from Cons.IH [OF r Cons.prems(2) 1 sc 2 3] show ?thesis .
  qed
qed


lemma performLvn_defs_uses:
  "performLvn_defs b node dfs s = Ok s' \<Longrightarrow> n < next_node s \<Longrightarrow>
   n < next_node s' \<and> uses (rwnodes s' n) = uses (rwnodes s n)"
proof (induction dfs arbitrary: s)
  case Nil
  then show ?case by simp
next
  case (Cons d dfs)
  show ?case
  proof (cases "target_isUnknown (target d)")
    case True
    with Cons.prems(1) have "performLvn_defs b node dfs
      (setDefinitions b
         (DefinitionsMap_add (DefinitionsMap_addAll (definitions (bblocks s b)) node)
            \<lparr>target = target d, offset = Off 0, dlen = UNKNOWN\<rparr> node) s) = Ok s'"
      by simp
    from Cons.IH [OF this] Cons.prems(2) show ?thesis by (simp add: setDefinitions_def)
  next
    case False
    with Cons.prems(1) obtain found s1 where f: "findDefinitionsInBlock b d s = Ok (found, s1)"
      and r: "performLvn_defs b node dfs
                (setDefinitions b
                   (DefinitionsMap_add (definitions (bblocks (addDefuse node found s1) b)) d node)
                   (addDefuse node found s1)) = Ok s'"
      by (auto simp: Let_def split: result.splits)
    let ?m = "definitions (bblocks s b)"
    from f have "findDefinitionsInBlock_loop b (target d) (undefinedIntervals ?m d)
        (DefinitionsMap_get ?m d @ DefinitionsMap_get ?m unknownMemory, s) = Ok (found, s1)"
      by (simp add: findDefinitionsInBlock_def Let_def)
    from findDefinitionsInBlock_loop_found [OF this] Cons.prems(2)
    have "n < next_node s1" "rwnodes s1 n = rwnodes s n" by auto
    with Cons.IH [OF r] show ?thesis by (auto simp: setDefinitions_def addDefuse_def)
  qed
qed

lemma performLvn_node_clear:
  assumes run: "performLvn_node b n s = Ok s'" and n: "n < next_node s"
    and fresh: "n \<notin> set (defuse (rwnodes s n))" "n \<notin> definedBy (definitions (bblocks s b))"
    and clear: "selfClear (definitions (bblocks s b)) (overwrites (rwnodes s n))
                  (defs (rwnodes s n)) (uses (rwnodes s n))"
  shows "n \<notin> set (defuse (rwnodes s' n)) \<and> n < next_node s'"
proof -
  let ?m0 = "definitions (bblocks s b)"
  from run obtain s1 s2 where
    o: "performLvn_overwrites b n (overwrites (rwnodes s n)) s = Ok s1" and
    d: "performLvn_defs b n (defs (rwnodes s1 n)) s1 = Ok s2" and
    u: "performLvn_uses b n (uses (rwnodes s2 n)) s2 = Ok s'"
    by (auto simp: performLvn_node_def split: result.splits)
  from performLvn_overwrites_within [OF o keysWithin_init [OF fresh(2)]]
  have k: "keysWithin n ?m0 (map strongCarrier (overwrites (rwnodes s n))) (definitions (bblocks s1 b))"
    and rw: "rwnodes s1 = rwnodes s" and nx: "next_node s1 = next_node s"
    by auto
  from performLvn_defs_uses [OF d, of n] n nx rw
  have us: "uses (rwnodes s2 n) = uses (rwnodes s n)" by simp
  from clear have sc: "selfClear_defs ?m0 (map strongCarrier (overwrites (rwnodes s n)))
      (defs (rwnodes s1 n)) (uses (rwnodes s2 n))"
    by (simp add: selfClear_def rw us)
  from performLvn_defs_clear [OF d u k sc] n nx fresh(1) rw show ?thesis by simp
qed

section \<open>The order of the worklist\<close>

lemma set_set_insert_at [simp]: "set (set_insert_at addr x xs) = insert x (set xs)"
  by (auto simp: set_insert_at_def set_insort_key)

lemma set_set_insert_all_at [simp]: "set (set_insert_all_at addr ys xs) = set ys \<union> set xs"
  unfolding set_insert_all_at_def by (induction ys arbitrary: xs) auto

lemma gvn_frame_refl: "gvn_frame s s"
  by (simp add: gvn_frame_def)

lemma gvn_frame_trans:
  assumes "gvn_frame s t" and "gvn_frame t u"
  shows "gvn_frame s u"
proof -
  from assms have n: "next_node s \<le> next_node t" "next_node t \<le> next_node u"
    and p: "set (phis s) \<subseteq> set (phis t)" "set (phis t) \<subseteq> set (phis u)"
    and f: "\<And>p. p \<in> set (phis t) \<Longrightarrow> p \<in> set (phis s) \<or> next_node s \<le> p"
           "\<And>p. p \<in> set (phis u) \<Longrightarrow> p \<in> set (phis t) \<or> next_node t \<le> p"
    and d: "\<And>n. n < next_node s \<Longrightarrow> n \<notin> set (phis s) \<Longrightarrow> defuse (rwnodes t n) = defuse (rwnodes s n)"
           "\<And>n. n < next_node t \<Longrightarrow> n \<notin> set (phis t) \<Longrightarrow> defuse (rwnodes u n) = defuse (rwnodes t n)"
    by (auto simp: gvn_frame_def)
  have 1: "p \<in> set (phis s) \<or> next_node s \<le> p" if "p \<in> set (phis u)" for p
    using f(1) [of p] f(2) [OF that] n(1) by auto
  have 2: "defuse (rwnodes u m) = defuse (rwnodes s m)"
    if "m < next_node s" "m \<notin> set (phis s)" for m
  proof -
    from f(1) [of m] that have "m \<notin> set (phis t)" by auto
    with d(2) [of m] d(1) [OF that] that(1) n(1) show ?thesis by simp
  qed
  from n p 1 2 show ?thesis unfolding gvn_frame_def by (intro conjI ballI allI impI) auto
qed

lemma gvn_frame_createPhi:
  assumes "createPhi b t i s = Ok (p, s')"
  shows "gvn_frame s s'"
proof -
  note e = createPhi_effect [OF assms]
  from e(1,2,3) e(5) show ?thesis by (auto simp: gvn_frame_def)
qed

lemma gvn_frame_addDefuse: "phi \<in> set (phis s) \<Longrightarrow> gvn_frame s (addDefuse phi vs s)"
  by (auto simp: gvn_frame_def addDefuse_def)

lemma findDefinitions_gvn_frame:
  assumes "findDefinitions fuel blk ds st = Ok (r, st')"
  shows "gvn_frame st st'"
  by (rule findDefinitions_preserves(1) [where R = gvn_frame, OF _ _ _ assms])
    (auto intro: gvn_frame_refl gvn_frame_trans gvn_frame_createPhi)

lemma performGvn_preds_at_frame:
  "phi \<in> set (phis st) \<Longrightarrow> set work \<subseteq> set (phis st) \<Longrightarrow>
   performGvn_preds_at addr fuel phi ds ps (work, st) = Ok (work', st') \<Longrightarrow>
   gvn_frame st st' \<and> set work' \<subseteq> set (phis st')"
proof (induction ps arbitrary: work st)
  case Nil
  then show ?case by (simp add: gvn_frame_refl)
next
  case (Cons I ps)
  from Cons.prems(3) obtain found s1 where f: "findDefinitions fuel I ds st = Ok (found, s1)"
    and r: "performGvn_preds_at addr fuel phi ds ps
              (set_insert_all_at addr (drop (length (phis st)) (phis s1)) work,
               addDefuse phi found s1) = Ok (work', st')"
    by (auto simp: Let_def split: result.splits)
  let ?w = "set_insert_all_at addr (drop (length (phis st)) (phis s1)) work"
  let ?s = "addDefuse phi found s1"
  from f have p1: "gvn_frame st s1" by (rule findDefinitions_gvn_frame)
  with Cons.prems(1) have phi: "phi \<in> set (phis s1)" by (auto simp: gvn_frame_def)
  then have p2: "gvn_frame s1 ?s" by (rule gvn_frame_addDefuse)
  have p12: "gvn_frame st ?s" using p1 p2 by (rule gvn_frame_trans)
  have w: "set ?w \<subseteq> set (phis ?s)"
    using Cons.prems(2) p1 set_drop_subset [of "length (phis st)" "phis s1"]
    by (auto simp: gvn_frame_def addDefuse_def)
  from phi have "phi \<in> set (phis ?s)" by (simp add: addDefuse_def)
  from Cons.IH [OF this w r] p12 show ?case by (auto intro: gvn_frame_trans)
qed

lemma performGvn_loop_at_frame:
  "set work \<subseteq> set (phis st) \<Longrightarrow> performGvn_loop_at addr fuel work st = Ok st' \<Longrightarrow> gvn_frame st st'"
proof (induction addr fuel work st rule: performGvn_loop_at.induct)
  case (1 addr fuel st)
  then show ?case by (simp add: gvn_frame_refl)
next
  case (2 addr phi work st)
  then show ?case by simp
next
  case (3 addr fuel phi work st)
  from "3.prems"(2) obtain ds where ow: "overwrites (rwnodes st phi) = [ds]"
    by (auto split: list.splits)
  with "3.prems"(2) obtain block where b: "bblock (rwnodes st phi) = Some block"
    by (auto split: option.splits)
  with ow "3.prems"(2) obtain work' s1 where
    p: "performGvn_preds_at addr fuel phi ds (predecessors (bblocks st block)) (work, st) = Ok (work', s1)"
    and l: "performGvn_loop_at addr fuel work' s1 = Ok st'"
    by (auto split: result.splits)
  from "3.prems"(1) have "phi \<in> set (phis st)" "set work \<subseteq> set (phis st)" by auto
  from performGvn_preds_at_frame [OF this p] have f: "gvn_frame st s1" and w: "set work' \<subseteq> set (phis s1)"
    by auto
  from "3.IH" [OF ow refl b p refl w l] f show ?case by (auto intro: gvn_frame_trans)
qed

lemma performGvn_at_frame:
  assumes "performGvn_at addr fuel st = Ok st'"
  shows "gvn_frame st st'"
  using assms unfolding performGvn_at_def by (intro performGvn_loop_at_frame [where work = "set_insert_all_at addr (phis st) []"]) auto

lemma registry_step_closed: "lvn_closed registry_step UNIV"
  unfolding lvn_closed_def
proof (intro conjI allI impI)
  fix b t i s p s'
  assume "createPhi b t i s = Ok (p, s')"
  from createPhi_effect(1,2,3) [OF this] show "registry_step s s'"
    by (auto simp: registry_step_def)
qed (auto simp: registry_step_def addDefuse_def setDefinitions_def)

text \<open>With the number of a node as its address the loop is \<^verbatim>\<open>performGvn\<close> as above.\<close>

lemma performGvn_at_id: "performGvn_at (\<lambda>x. x) fuel st = performGvn fuel st"
proof -
  have i: "set_insert_at (\<lambda>x. x) = set_insert"
    by (simp add: fun_eq_iff set_insert_at_def set_insert_def)
  have a: "set_insert_all_at (\<lambda>x. x) = set_insert_all"
    by (simp add: fun_eq_iff set_insert_all_at_def set_insert_all_def i)
  have p: "performGvn_preds_at (\<lambda>x. x) f phi ds ps ws = performGvn_preds f phi ds ps ws" for f phi ds ps ws
  proof (induction ps arbitrary: ws)
    case Nil
    then show ?case by (cases ws) simp
  next
    case (Cons I ps)
    then show ?case by (cases ws) (simp add: a Let_def split: result.splits)
  qed
  have "performGvn_loop_at (\<lambda>x. x) f work s = performGvn_loop f work s" for f work s
  proof (induction f work s rule: performGvn_loop.induct)
    case (1 fuel st)
    then show ?case by simp
  next
    case (2 phi work st)
    then show ?case by simp
  next
    case (3 fuel phi work st)
    show ?case
    proof (cases "overwrites (rwnodes st phi)")
      case Nil
      then show ?thesis by simp
    next
      case (Cons ds rest)
      show ?thesis
      proof (cases rest)
        case (Cons d' rest')
        with \<open>overwrites (rwnodes st phi) = ds # rest\<close> show ?thesis by simp
      next
        case Nil
        with \<open>overwrites (rwnodes st phi) = ds # rest\<close>
        have ow: "overwrites (rwnodes st phi) = [ds]" by simp
        show ?thesis
        proof (cases "bblock (rwnodes st phi)")
          case None
          with ow show ?thesis by simp
        next
          case (Some block)
          show ?thesis
          proof (cases "performGvn_preds fuel phi ds (predecessors (bblocks st block)) (work, st)")
            case (Ok x)
            obtain work' s1 where x: "x = (work', s1)" by (cases x)
            from "3.IH" [OF ow refl Some Ok x [symmetric]] ow Some Ok x show ?thesis
              by (simp add: p)
          next
            case (Abort e)
            with ow Some show ?thesis by (simp add: p)
          next
            case OutOfFuel
            with ow Some show ?thesis by (simp add: p)
          qed
        qed
      qed
    qed
  qed
  then show ?thesis by (simp add: performGvn_at_def performGvn_def a)
qed

section \<open>The sentinel rule of overlaps\<close>

text \<open>
  Claim C9. An interval counts as unknown exactly when its start is \<^verbatim>\<open>UNKNOWN\<close> or
  its length is 0, and \<^verbatim>\<open>overlaps\<close> answers false as soon as one of its two
  operands is unknown; so an interval of length 0 overlaps nothing, on either side.
\<close>

theorem overlaps_unknown_false:
  "(isUnknown a \<longleftrightarrow> start a = UNKNOWN \<or> len a = Off 0) \<and>
   (isUnknown a \<or> isUnknown b \<longrightarrow> overlaps a b = False) \<and>
   (len a = Off 0 \<longrightarrow> overlaps a b = False \<and> overlaps b a = False)"
  by (simp add: isUnknown_def overlaps_def Offset_isUnknown_def)

theorem overlaps_unknown_false_witness:
  "isUnknown \<lparr>start = Off 3, len = Off 0\<rparr> \<and>
   overlaps \<lparr>start = Off 3, len = Off 0\<rparr> \<lparr>start = Off 0, len = Off 8\<rparr> = False \<and>
   overlaps \<lparr>start = Off 0, len = Off 8\<rparr> \<lparr>start = Off 3, len = Off 0\<rparr> = False \<and>
   overlaps \<lparr>start = Off 0, len = Off 8\<rparr> \<lparr>start = Off 3, len = Off 1\<rparr> = True"
  using overlaps_unknown_false [of "\<lparr>start = Off 3, len = Off 0\<rparr>" "\<lparr>start = Off 0, len = Off 8\<rparr>"]
  by (simp add: isUnknown_def overlaps_def Offset_isUnknown_def Offset_lt_def)

section \<open>The strong update\<close>




text \<open>
  Claim C2 at a failing input. The interval map has the one bucket \<open>[0, 8)\<close> with the
  value 2. Before the strong update of \<open>[2, 4)\<close> with the value 3, that is
  \<^verbatim>\<open>killOverlapping\<close> followed by \<^verbatim>\<open>add\<close>, byte 0 has the value 2; after it,
  byte 0 has no value: \<^verbatim>\<open>killOverlapping\<close> erases the whole bucket. For this range,
  which lies inside the bucket, the loop computes no remainder at all; for the range
  \<open>[4, 12)\<close> it puts two intervals into \<^verbatim>\<open>to_add\<close> and leaves no bucket either.
\<close>

theorem killOverlapping_loses_remainder:
  "collectAll \<lparr>start = Off 0, len = Off 1\<rparr> [(\<lparr>start = Off 0, len = Off 8\<rparr>, 2::nat)] = [2] \<and>
   collectAll \<lparr>start = Off 0, len = Off 1\<rparr>
     (IntervalMap_add \<lparr>start = Off 2, len = Off 2\<rparr> 3
        (killOverlapping \<lparr>start = Off 2, len = Off 2\<rparr>
           [(\<lparr>start = Off 0, len = Off 8\<rparr>, 2::nat)])) = [] \<and>
   killOverlapping_loop \<lparr>start = Off 2, len = Off 2\<rparr>
     [(\<lparr>start = Off 0, len = Off 8\<rparr>, 2::nat)] = ([], []) \<and>
   fst (killOverlapping_loop \<lparr>start = Off 4, len = Off 8\<rparr>
          [(\<lparr>start = Off 0, len = Off 8\<rparr>, 2::nat)]) = [] \<and>
   length (snd (killOverlapping_loop \<lparr>start = Off 4, len = Off 8\<rparr>
                  [(\<lparr>start = Off 0, len = Off 8\<rparr>, 2::nat)])) = 2"
  by (simp add: collectAll_def IntervalMap_add_def killOverlapping_def interval_defs)

section \<open>A write to unknown memory\<close>

text \<open>
  Claim C6. On scenario S4 the local pass creates no PHI; the write of node 3 to unknown
  memory is added to the one existing entry of the block's map and is registered under
  \<open>(UNKNOWN_MEMORY, 0, UNKNOWN)\<close>; node 3 itself gets no definitions, and the use, node
  4, gets nodes 2 and 3. The global pass has nothing to do, and the reaching definitions
  of node 4 are exactly nodes 2 and 3.
\<close>

theorem unknown_write_taints:
  "(case performLvn_graph S4 of
      Ok st \<Rightarrow>
        phis st = [] \<and>
        definitions (bblocks st 0) =
          [(UNKNOWN_MEMORY, [(\<lparr>start = Off 0, len = UNKNOWN\<rparr>, [3])]),
           (1, [(\<lparr>start = Off 0, len = Off 4\<rparr>, [2, 3])])] \<and>
        defuse (rwnodes st 2) = [] \<and> defuse (rwnodes st 3) = [] \<and>
        defuse (rwnodes st 4) = [2, 3] \<and>
        performGvn fuel st = Ok st \<and>
        getReachingDefinitions fuel st 4 = Ok [2, 3]
    | _ \<Rightarrow> False)"
  by (simp add: S4_def emptyNode_def emptyBlock_def lvn_defs map_defs interval_defs
      performGvn_def getReachingDefinitions_def usesUnknown_def gatherNonPhisDefs_def)

section \<open>Uncovered intervals in findDefinitions\<close>

text \<open>
  Claim C3, as amended. \<^verbatim>\<open>findDefinitions\<close> on a block runs its loop over the
  intervals that the block's map leaves uncovered for the def-site. For one such interval:
  when \<^verbatim>\<open>getSinglePredecessor\<close> returns a block, that is, when the block has exactly
  one predecessor and it is not null, the loop calls \<^verbatim>\<open>findDefinitions\<close> on it,
  appends what it returns, and the call leaves the nodes and the map of the block as they
  were, so no PHI is created in the block. In every other case, the block having no
  predecessor, several, or a single null one (and the asserted precondition holding, the
  block having no definition of the interval), the loop creates a fresh PHI whose one
  overwritten def-site is the interval on the target, records it in the block's map by a
  strong update, prepends it to the block, where its successor is the former first node,
  appends it to the registry, and the PHI is among the definitions returned.
\<close>

theorem findDefinitions_uncovered_interval:
  "findDefinitions (Suc fuel) (Some b) ds st =
     findDefinitions_loop fuel b ds (undefinedIntervals (definitions (bblocks st b)) ds)
       (DefinitionsMap_get (definitions (bblocks st b)) ds @
        DefinitionsMap_get (definitions (bblocks st b)) unknownMemory, st) \<and>
   (getSinglePredecessor (bblocks st b) = Some P' \<longleftrightarrow> predecessors (bblocks st b) = [Some P']) \<and>
   (getSinglePredecessor (bblocks st b) = Some P' \<longrightarrow>
      findDefinitions_loop fuel b ds (i # rest) (dfs, st) =
        (case findDefinitions fuel (Some P') ds st of
           Ok (pdefs, st') \<Rightarrow> findDefinitions_loop fuel b ds rest (dfs @ pdefs, st')
         | Abort e \<Rightarrow> Abort e
         | OutOfFuel \<Rightarrow> OutOfFuel) \<and>
      (\<forall>pdefs st'. findDefinitions fuel (Some P') ds st = Ok (pdefs, st') \<longrightarrow>
         nodes (bblocks st' b) = nodes (bblocks st b) \<and>
         definitions (bblocks st' b) = definitions (bblocks st b))) \<and>
   (getSinglePredecessor (bblocks st b) = None \<and>
    DefinitionsMap_get (definitions (bblocks st b))
      \<lparr>target = target ds, offset = start i, dlen = len i\<rparr> = [] \<longrightarrow>
      (\<exists>st'. findDefinitions_loop fuel b ds (i # rest) (dfs, st) =
               findDefinitions_loop fuel b ds rest (dfs @ [next_node st], st') \<and>
             ntype (rwnodes st' (next_node st)) = PHI \<and>
             overwrites (rwnodes st' (next_node st)) =
               [\<lparr>target = target ds, offset = start i, dlen = len i\<rparr>] \<and>
             definitions (bblocks st' b) =
               DefinitionsMap_update (definitions (bblocks st b))
                 \<lparr>target = target ds, offset = start i, dlen = len i\<rparr> (next_node st) \<and>
             nodes (bblocks st' b) = next_node st # nodes (bblocks st b) \<and>
             bblock (rwnodes st' (next_node st)) = Some b \<and>
             successors (rwnodes st' (next_node st)) = take 1 (nodes (bblocks st b)) \<and>
             predecessors (bblocks st' b) = predecessors (bblocks st b) \<and>
             phis st' = phis st @ [next_node st] \<and>
             (\<forall>r st''. findDefinitions_loop fuel b ds rest (dfs @ [next_node st], st') = Ok (r, st'')
                 \<longrightarrow> next_node st \<in> set r)))"
proof (intro conjI impI)
  show "findDefinitions (Suc fuel) (Some b) ds st =
     findDefinitions_loop fuel b ds (undefinedIntervals (definitions (bblocks st b)) ds)
       (DefinitionsMap_get (definitions (bblocks st b)) ds @
        DefinitionsMap_get (definitions (bblocks st b)) unknownMemory, st)"
    by (simp add: Let_def)
next
  show "getSinglePredecessor (bblocks st b) = Some P' \<longleftrightarrow> predecessors (bblocks st b) = [Some P']"
    by (rule getSinglePredecessor_Some)
next
  assume "getSinglePredecessor (bblocks st b) = Some P'"
  then show "findDefinitions_loop fuel b ds (i # rest) (dfs, st) =
        (case findDefinitions fuel (Some P') ds st of
           Ok (pdefs, st') \<Rightarrow> findDefinitions_loop fuel b ds rest (dfs @ pdefs, st')
         | Abort e \<Rightarrow> Abort e
         | OutOfFuel \<Rightarrow> OutOfFuel)"
    by simp
next
  assume sp: "getSinglePredecessor (bblocks st b) = Some P'"
  show "\<forall>pdefs st'. findDefinitions fuel (Some P') ds st = Ok (pdefs, st') \<longrightarrow>
         nodes (bblocks st' b) = nodes (bblocks st b) \<and>
         definitions (bblocks st' b) = definitions (bblocks st b)"
  proof (intro allI impI)
    fix pdefs st'
    assume "findDefinitions fuel (Some P') ds st = Ok (pdefs, st')"
    from findDefinitions_single_pred_frame [OF this] sp
    show "nodes (bblocks st' b) = nodes (bblocks st b) \<and>
         definitions (bblocks st' b) = definitions (bblocks st b)"
      by (simp add: single_pred_frame_def)
  qed
next
  assume h: "getSinglePredecessor (bblocks st b) = None \<and>
    DefinitionsMap_get (definitions (bblocks st b))
      \<lparr>target = target ds, offset = start i, dlen = len i\<rparr> = []"
  then have np: "getSinglePredecessor (bblocks st b) = None" by simp
  from h createPhi_Ok [of st b "target ds" i] obtain st'
    where c: "createPhi b (target ds) i st = Ok (next_node st, st')" by blast
  note e = createPhi_effect [OF c]
  have "next_node st \<in> set r"
    if "findDefinitions_loop fuel b ds rest (dfs @ [next_node st], st') = Ok (r, st'')" for r st''
    using findDefinitions_loop_acc [OF that] by simp
  with np c e(3,6,8) show "\<exists>st'. findDefinitions_loop fuel b ds (i # rest) (dfs, st) =
               findDefinitions_loop fuel b ds rest (dfs @ [next_node st], st') \<and>
             ntype (rwnodes st' (next_node st)) = PHI \<and>
             overwrites (rwnodes st' (next_node st)) =
               [\<lparr>target = target ds, offset = start i, dlen = len i\<rparr>] \<and>
             definitions (bblocks st' b) =
               DefinitionsMap_update (definitions (bblocks st b))
                 \<lparr>target = target ds, offset = start i, dlen = len i\<rparr> (next_node st) \<and>
             nodes (bblocks st' b) = next_node st # nodes (bblocks st b) \<and>
             bblock (rwnodes st' (next_node st)) = Some b \<and>
             successors (rwnodes st' (next_node st)) = take 1 (nodes (bblocks st b)) \<and>
             predecessors (bblocks st' b) = predecessors (bblocks st b) \<and>
             phis st' = phis st @ [next_node st] \<and>
             (\<forall>r st''. findDefinitions_loop fuel b ds rest (dfs @ [next_node st], st') = Ok (r, st'')
                 \<longrightarrow> next_node st \<in> set r)"
    by (intro exI [of _ st']) (auto split: list.splits)
qed

theorem findDefinitions_uncovered_interval_witness:
  "getSinglePredecessor (bblocks S2 4) = Some 3 \<and>
   (\<exists>pdefs st'. findDefinitions 3 (Some 3) S2_ds S2 = Ok (pdefs, st') \<and>
        nodes (bblocks st' 4) = nodes (bblocks S2 4) \<and>
        definitions (bblocks st' 4) = definitions (bblocks S2 4)) \<and>
   getSinglePredecessor (bblocks S2 3) = None \<and>
   (\<exists>st'. findDefinitions_loop 2 3 S2_ds [\<lparr>start = Off 0, len = Off 4\<rparr>] ([], S2) =
             findDefinitions_loop 2 3 S2_ds [] ([] @ [next_node S2], st') \<and>
          nodes (bblocks st' 3) = next_node S2 # nodes (bblocks S2 3) \<and>
          phis st' = phis S2 @ [next_node S2]) \<and>
   getSinglePredecessor (bblocks NullPred 0) = None \<and>
   (\<exists>st'. findDefinitions_loop 0 0 S2_ds [\<lparr>start = Off 0, len = Off 4\<rparr>] ([], NullPred) =
             findDefinitions_loop 0 0 S2_ds [] ([] @ [next_node NullPred], st') \<and>
          nodes (bblocks st' 0) = next_node NullPred # nodes (bblocks NullPred 0) \<and>
          phis st' = phis NullPred @ [next_node NullPred])"
proof -
  let ?i = "\<lparr>start = Off 0, len = Off 4\<rparr>"
  have h1: "getSinglePredecessor (bblocks S2 4) = Some 3"
    by (simp add: S2_def emptyBlock_def getSinglePredecessor_def)
  have h2: "getSinglePredecessor (bblocks S2 3) = None \<and>
      DefinitionsMap_get (definitions (bblocks S2 3))
        \<lparr>target = target S2_ds, offset = start ?i, dlen = len ?i\<rparr> = []"
    by (simp add: S2_def S2_ds_def emptyBlock_def map_defs getSinglePredecessor_def)
  have h3: "getSinglePredecessor (bblocks NullPred 0) = None \<and>
      DefinitionsMap_get (definitions (bblocks NullPred 0))
        \<lparr>target = target S2_ds, offset = start ?i, dlen = len ?i\<rparr> = []"
    by (simp add: NullPred_def emptyGraph_def S2_ds_def emptyBlock_def map_defs
        getSinglePredecessor_def)
  have "\<exists>pdefs st'. findDefinitions (Suc (Suc (Suc 0))) (Some 3) S2_ds S2 = Ok (pdefs, st')"
    by (simp add: S2_def S2_ds_def emptyNode_def emptyBlock_def lvn_defs map_defs interval_defs
        getSinglePredecessor_def Let_def)
  then obtain pdefs st' where run: "findDefinitions 3 (Some 3) S2_ds S2 = Ok (pdefs, st')"
    by (auto simp: numeral_3_eq_3)
  from findDefinitions_uncovered_interval [of 3 4 S2_ds S2 3 ?i "[]" "[]"] h1 run
  have frame: "nodes (bblocks st' 4) = nodes (bblocks S2 4) \<and>
      definitions (bblocks st' 4) = definitions (bblocks S2 4)"
    by blast
  from findDefinitions_uncovered_interval [of 2 3 S2_ds S2 3 ?i "[]" "[]"] h2
  obtain st'' where a:
    "findDefinitions_loop 2 3 S2_ds [?i] ([], S2) =
       findDefinitions_loop 2 3 S2_ds [] ([] @ [next_node S2], st'')"
    "nodes (bblocks st'' 3) = next_node S2 # nodes (bblocks S2 3)"
    "phis st'' = phis S2 @ [next_node S2]"
    by blast
  from findDefinitions_uncovered_interval [of 0 0 S2_ds NullPred 3 ?i "[]" "[]"] h3
  obtain st3 where b:
    "findDefinitions_loop 0 0 S2_ds [?i] ([], NullPred) =
       findDefinitions_loop 0 0 S2_ds [] ([] @ [next_node NullPred], st3)"
    "nodes (bblocks st3 0) = next_node NullPred # nodes (bblocks NullPred 0)"
    "phis st3 = phis NullPred @ [next_node NullPred]"
    by blast
  from h1 h2 h3 run frame a b show ?thesis by blast
qed

text \<open>
  The claim as it is written makes every block with exactly one predecessor recurse. The
  block of the graph below has exactly one predecessor, a null one: the test of the
  pointer that \<^verbatim>\<open>getSinglePredecessor\<close> returns fails, and \<^verbatim>\<open>findDefinitions\<close>
  creates a PHI in the block.
\<close>

theorem findDefinitions_uncovered_interval_counterexample:
  "length (predecessors (bblocks NullPred 0)) = 1 \<and>
   undefinedIntervals (definitions (bblocks NullPred 0)) S2_ds = [\<lparr>start = Off 0, len = Off 4\<rparr>] \<and>
   (case findDefinitions (Suc 0) (Some 0) S2_ds NullPred of
      Ok (r, st') \<Rightarrow> (r, phis st', nodes (bblocks st' 0), ntype (rwnodes st' 1))
    | _ \<Rightarrow> ([], [], [], GENERIC)) = ([1], [1], [1], PHI)"
  by (simp add: NullPred_def emptyGraph_def S2_ds_def emptyNode_def emptyBlock_def lvn_defs
      map_defs interval_defs getSinglePredecessor_def)


section \<open>Cycle safety of the query\<close>

text \<open>
  Claim C5. Take a graph whose PHI nodes have addresses below \<open>N\<close> and whose blocks, as
  far as they are predecessors, have addresses below \<open>K\<close>: then with fuel above both
  bounds \<^verbatim>\<open>getReachingDefinitions\<close> does not run out of fuel, whatever cycles the
  \<^verbatim>\<open>defuse\<close> collections of the PHIs and the predecessor edges form. It stops at the
  assertion of \<^verbatim>\<open>findAllReachingDefinitions\<close> when the node uses unknown memory and
  has no block; in every other case it returns a list, and no node of the list is a PHI.
\<close>

theorem getReachingDefinitions_terminates:
  assumes phis: "\<forall>n. ntype (rwnodes st n) = PHI \<longrightarrow> n < N"
      and preds: "\<forall>b q. Some q \<in> set (predecessors (bblocks st b)) \<longrightarrow> q < K"
      and fuel: "N < fuel" "K < fuel"
  shows "(usesUnknown (rwnodes st use) \<and> bblock (rwnodes st use) = None \<longrightarrow>
            getReachingDefinitions fuel st use = Abort AssertionFailed) \<and>
         (\<not> (usesUnknown (rwnodes st use) \<and> bblock (rwnodes st use) = None) \<longrightarrow>
            (\<exists>r. getReachingDefinitions fuel st use = Ok r \<and>
                 (\<forall>n \<in> set r. ntype (rwnodes st n) \<noteq> PHI)))"
proof (intro conjI impI)
  assume "usesUnknown (rwnodes st use) \<and> bblock (rwnodes st use) = None"
  then show "getReachingDefinitions fuel st use = Abort AssertionFailed"
    by (simp add: getReachingDefinitions_def findAllReachingDefinitions_def)
next
  assume h: "\<not> (usesUnknown (rwnodes st use) \<and> bblock (rwnodes st use) = None)"
  note g = gatherNonPhisDefs_terminates [OF phis fuel(1)]
  show "\<exists>r. getReachingDefinitions fuel st use = Ok r \<and>
           (\<forall>n \<in> set r. ntype (rwnodes st n) \<noteq> PHI)"
  proof (cases "usesUnknown (rwnodes st use)")
    case False
    with g [of "defuse (rwnodes st use)"] show ?thesis
      by (simp add: getReachingDefinitions_def)
  next
    case True
    with h obtain block where blk: "bblock (rwnodes st use) = Some block" by auto
    let ?UB = "{..<K}"
    let ?dm = "replay_nodes (rwnodes st) use (nodes (bblocks st block)) []"
    let ?fd = "set_insert_all (concat (map (\<lambda>it. allDefinitions (snd it)) ?dm)) []"
    have closed: "\<forall>b q. Some q \<in> set (predecessors (bblocks st b)) \<longrightarrow> q \<in> ?UB"
      using preds by simp
    have c: "card (?UB - set (snd (?fd, []))) < fuel" using fuel(2) by simp
    have "\<exists>f' v'.
        (case getSinglePredecessor (bblocks st block) of
           Some singlePred \<Rightarrow>
             findAllReachingDefinitions_block fuel (bblocks st) ?dm (Some singlePred) (?fd, [])
         | None \<Rightarrow>
             findAllReachingDefinitions_preds fuel (bblocks st) ?dm
               (predecessors (bblocks st block)) (?fd, [])) = Ok (f', v')"
    proof (cases "getSinglePredecessor (bblocks st block)")
      case None
      have "\<forall>q. Some q \<in> set (predecessors (bblocks st block)) \<longrightarrow> q \<in> ?UB"
        using closed by blast
      from walker_terminates(2) [OF _ closed this _ c, of ?dm] None
      show ?thesis by auto
    next
      case (Some sp)
      have "\<forall>q. Some sp = Some q \<longrightarrow> q \<in> ?UB"
        using closed getSinglePredecessor_in_preds [OF Some] by blast
      from walker_terminates(1) [OF _ closed this _ c, of ?dm] Some
      show ?thesis by auto
    qed
    then obtain f' v' where
      "(case getSinglePredecessor (bblocks st block) of
           Some singlePred \<Rightarrow>
             findAllReachingDefinitions_block fuel (bblocks st) ?dm (Some singlePred) (?fd, [])
         | None \<Rightarrow>
             findAllReachingDefinitions_preds fuel (bblocks st) ?dm
               (predecessors (bblocks st block)) (?fd, [])) = Ok (f', v')"
      by blast
    with True blk g [of f'] show ?thesis
      by (simp add: getReachingDefinitions_def findAllReachingDefinitions_def Let_def)
  qed
qed

theorem getReachingDefinitions_terminates_witness:
  "\<not> (usesUnknown (rwnodes PhiCycle 4) \<and> bblock (rwnodes PhiCycle 4) = None) \<and>
   (\<exists>r. getReachingDefinitions 8 PhiCycle 4 = Ok r \<and>
        (\<forall>n \<in> set r. ntype (rwnodes PhiCycle n) \<noteq> PHI)) \<and>
   getReachingDefinitions (Suc (Suc (Suc 0))) PhiCycle 4 = Ok [2, 3]"
proof -
  have h1: "\<forall>n. ntype (rwnodes PhiCycle n) = PHI \<longrightarrow> n < 7"
    by (auto simp: PhiCycle_def emptyNode_def)
  have h2: "\<forall>b q. Some q \<in> set (predecessors (bblocks PhiCycle b)) \<longrightarrow> q < 1"
    by (auto simp: PhiCycle_def emptyBlock_def)
  have h3: "\<not> (usesUnknown (rwnodes PhiCycle 4) \<and> bblock (rwnodes PhiCycle 4) = None)"
    by (simp add: PhiCycle_def emptyNode_def)
  have h4: "getReachingDefinitions (Suc (Suc (Suc 0))) PhiCycle 4 = Ok [2, 3]"
    by (simp add: PhiCycle_def emptyNode_def getReachingDefinitions_def usesUnknown_def
        gatherNonPhisDefs_def target_isUnknown_def UNKNOWN_MEMORY_def Offset_isUnknown_def
        set_insert_def)
  from getReachingDefinitions_terminates [OF h1 h2, of 8 4] h3 h4 show ?thesis by simp
qed


section \<open>A weak update does not find itself\<close>

text \<open>
  Claim C4, as amended. Let \<open>n\<close> be an allocated node that occurs once among the nodes of
  a block, is not in its own \<^verbatim>\<open>defuse\<close> and is not recorded in the block's map when the
  local pass starts. Let the def-sites of \<open>n\<close> be clear of each other with respect to the
  map \<open>m0\<close> of the block when the pass reaches \<open>n\<close>: no lookup of \<open>n\<close>, for a weak write
  to a known target or for a use, overlaps on its target the range of an earlier strong or
  weak write of \<open>n\<close> or a key of \<open>m0\<close> that an earlier weak write of \<open>n\<close> intersects,
  and no lookup follows a weak write of \<open>n\<close> to unknown memory. Then after the local pass
  over the block \<open>n\<close> is not a member of its own \<^verbatim>\<open>defuse\<close>: each lookup runs on the map
  as it is before the write it belongs to adds \<open>n\<close>.
\<close>

theorem weak_update_not_self:
  assumes run: "performLvn b st = Ok st'"
    and nodes: "nodes (bblocks st b) = pre @ n # post" "n \<notin> set pre" "n \<notin> set post"
    and reach: "performLvn_nodes b pre st = Ok s1"
    and n: "n < next_node st"
    and fresh: "n \<notin> set (defuse (rwnodes st n))" "n \<notin> definedBy (definitions (bblocks st b))"
    and clear: "selfClear (definitions (bblocks s1 b)) (overwrites (rwnodes st n))
                  (defs (rwnodes st n)) (uses (rwnodes st n))"
  shows "n \<notin> set (defuse (rwnodes st' n))"
proof -
  from nodes(2,3) have np: "set pre \<subseteq> UNIV - {n}" "set post \<subseteq> UNIV - {n}" by auto
  from run nodes(1) have "performLvn_nodes b (pre @ n # post) st = Ok st'"
    by (simp add: performLvn_def)
  with reach have r: "performLvn_nodes b (n # post) s1 = Ok st'"
    unfolding performLvn_nodes_append by auto
  then obtain s2 where 2: "performLvn_node b n s1 = Ok s2"
    and 3: "performLvn_nodes b post s2 = Ok st'"
    by (cases "performLvn_node b n s1") auto
  from performLvn_nodes_closed [OF untouched_closed np(1) reach, of b] n fresh(2)
  have a: "n < next_node s1" "rwnodes s1 n = rwnodes st n"
    "n \<notin> definedBy (definitions (bblocks s1 b))"
    by (auto simp: untouched_def)
  from clear a(2) have "selfClear (definitions (bblocks s1 b)) (overwrites (rwnodes s1 n))
      (defs (rwnodes s1 n)) (uses (rwnodes s1 n))" by simp
  from performLvn_node_clear [OF 2 a(1) _ a(3) this] fresh(1) a(2)
  have b: "n \<notin> set (defuse (rwnodes s2 n))" "n < next_node s2" by auto
  from performLvn_nodes_closed [OF untouched_closed np(2) 3, of b] b(2)
  have "rwnodes st' n = rwnodes s2 n" by (auto simp: untouched_def)
  with b(1) show ?thesis by simp
qed

theorem weak_update_not_self_witness:
  "\<exists>st'. performLvn 0 DisjointDefs = Ok st' \<and> defuse (rwnodes st' 3) = [2, 6, 7, 8] \<and>
         3 \<notin> set (defuse (rwnodes st' 3))"
proof -
  have "\<exists>st'. performLvn 0 DisjointDefs = Ok st' \<and> defuse (rwnodes st' 3) = [2, 6, 7, 8]"
    by (simp add: DisjointDefs_def emptyNode_def emptyBlock_def lvn_defs map_defs interval_defs)
  then obtain st' where run: "performLvn 0 DisjointDefs = Ok st'"
    and d: "defuse (rwnodes st' 3) = [2, 6, 7, 8]" by blast
  have "\<exists>s1. performLvn_nodes 0 [2] DisjointDefs = Ok s1 \<and>
      definitions (bblocks s1 0) = [(1, [(\<lparr>start = Off 0, len = Off 2\<rparr>, [2])])]"
    by (simp add: DisjointDefs_def emptyNode_def emptyBlock_def lvn_defs map_defs interval_defs)
  then obtain s1 where reach: "performLvn_nodes 0 [2] DisjointDefs = Ok s1"
    and m: "definitions (bblocks s1 0) = [(1, [(\<lparr>start = Off 0, len = Off 2\<rparr>, [2])])]"
    by blast
  have "3 \<notin> set (defuse (rwnodes st' 3))"
  proof (rule weak_update_not_self [OF run _ _ _ reach, where post = "[]"])
    show "nodes (bblocks DisjointDefs 0) = [2] @ 3 # []"
      by (simp add: DisjointDefs_def emptyBlock_def)
    show "selfClear (definitions (bblocks s1 0)) (overwrites (rwnodes DisjointDefs 3))
      (defs (rwnodes DisjointDefs 3)) (uses (rwnodes DisjointDefs 3))"
      unfolding m
      by (simp add: DisjointDefs_def emptyNode_def clear_defs interval_defs getInterval_def
          target_isUnknown_def UNKNOWN_MEMORY_def)
  qed (simp_all add: DisjointDefs_def emptyNode_def emptyBlock_def definedBy_def)
  with run d show ?thesis by blast
qed

text \<open>
  The claim as it is written covers every node with a weak write to a known target. Node
  2 of the graph \<^verbatim>\<open>TwoDefs\<close> has two of them, to overlapping ranges: the lookup for the
  second finds the node under the key of the first, and the node becomes a member of its
  own \<^verbatim>\<open>defuse\<close>.
\<close>

theorem weak_update_not_self_counterexample:
  "ntype (rwnodes TwoDefs 2) \<noteq> PHI \<and>
   defs (rwnodes TwoDefs 2) =
     [\<lparr>target = 1, offset = Off 0, dlen = Off 4\<rparr>, \<lparr>target = 1, offset = Off 2, dlen = Off 4\<rparr>] \<and>
   \<not> target_isUnknown 1 \<and>
   (case performLvn 0 TwoDefs of Ok st' \<Rightarrow> defuse (rwnodes st' 2) | _ \<Rightarrow> []) = [3, 2, 4] \<and>
   2 \<in> set (case performLvn 0 TwoDefs of Ok st' \<Rightarrow> defuse (rwnodes st' 2) | _ \<Rightarrow> [])"
  by (simp add: TwoDefs_def emptyNode_def emptyBlock_def lvn_defs map_defs interval_defs)

section \<open>The block of a PHI\<close>

text \<open>
  Claim C10. The creation of a PHI, in \<^verbatim>\<open>findDefinitionsInBlock\<close> as in
  \<^verbatim>\<open>findDefinitions\<close>, appends it to the registry and prepends it to a block, so that
  its block is set when the creation returns. Hence, from a registry whose PHIs all have a
  block (an empty one, as before the analysis), every registered PHI has a block after the
  local pass, the global pass never reads the predecessors of a null block, and every
  registered PHI has a block after the global pass. Nothing is assumed about the block
  references of the other nodes.
\<close>

theorem phis_have_blocks:
  assumes "\<forall>p \<in> set (phis st). bblock (rwnodes st p) \<noteq> None"
      and "performLvn_graph st = Ok st1"
  shows "(\<forall>b t i s p s'. createPhi b t i s = Ok (p, s') \<longrightarrow>
            bblock (rwnodes s' p) = Some b \<and> nodes (bblocks s' b) = p # nodes (bblocks s b) \<and>
            phis s' = phis s @ [p]) \<and>
         (\<forall>p \<in> set (phis st1). bblock (rwnodes st1 p) \<noteq> None) \<and>
         performGvn fuel st1 \<noteq> Abort NullPointer \<and>
         (\<forall>st2. performGvn fuel st1 = Ok st2 \<longrightarrow>
            (\<forall>p \<in> set (phis st2). bblock (rwnodes st2 p) \<noteq> None))"
proof -
  have c: "bblock (rwnodes s' p) = Some b \<and> nodes (bblocks s' b) = p # nodes (bblocks s b) \<and>
      phis s' = phis s @ [p]"
    if "createPhi b t i s = Ok (p, s')" for b t i s p s'
    using createPhi_effect(3,6,8) [OF that] by simp
  from assms(1) have "phis_placed st" by (simp add: phis_placed_def)
  with performLvn_graph_closed [OF placed_step_closed assms(2)]
  have p1: "phis_placed st1" by (simp add: placed_step_def)
  from performGvn_loop_placed [OF p1, of "set_insert_all (phis st1) []" fuel]
  have "performGvn fuel st1 \<noteq> Abort NullPointer"
    and "\<forall>st2. performGvn fuel st1 = Ok st2 \<longrightarrow> phis_placed st2"
    by (simp_all add: performGvn_def)
  with c p1 show ?thesis unfolding phis_placed_def by blast
qed

theorem phis_have_blocks_witness:
  "\<exists>st1. performLvn_graph S2 = Ok st1 \<and> phis st1 = [5] \<and>
         (\<forall>p \<in> set (phis st1). bblock (rwnodes st1 p) \<noteq> None) \<and>
         performGvn 10 st1 \<noteq> Abort NullPointer"
proof -
  have "\<exists>st1. performLvn_graph S2 = Ok st1 \<and> phis st1 = [5]"
    by (simp add: S2_def emptyNode_def emptyBlock_def lvn_defs map_defs interval_defs)
  then obtain st1 where lvn: "performLvn_graph S2 = Ok st1" and p: "phis st1 = [5]"
    by blast
  have h: "\<forall>p \<in> set (phis S2). bblock (rwnodes S2 p) \<noteq> None"
    by (simp add: S2_def)
  from phis_have_blocks [OF h lvn, of 10] lvn p show ?thesis by blast
qed

section \<open>The null block\<close>

text \<open>
  Claim C7. \<^verbatim>\<open>findDefinitions\<close> of a null block returns the empty vector and the
  state it was given: no PHI is created and no map of any block changes. The loop of
  \<^verbatim>\<open>performGvn\<close> over the predecessors goes on past a null predecessor with its
  worklist and state as they were, and the block walker of
  \<^verbatim>\<open>findAllReachingDefinitions\<close> returns from a null block with what it had found.
  The other conditions that the code checks are assertions and end the analysis: a strong
  update on an unknown offset or on unknown memory, a PHI for an interval that the block
  already defines, and a query for a node that uses unknown memory and has no block.
\<close>

theorem findDefinitions_null_block:
  "findDefinitions fuel None ds st = Ok ([], st) \<and>
   performGvn_preds fuel phi ds (None # rest) (work, st)
     = performGvn_preds fuel phi ds rest (work, st) \<and>
   findAllReachingDefinitions_block fuel bs dm None (foundDefs, visitedBlocks)
     = Ok (foundDefs, visitedBlocks) \<and>
   (Offset_isUnknown (offset ds) \<or> target_isUnknown (target ds) \<longrightarrow>
      performLvn_overwrites b node (ds # dss) st = Abort AssertionFailed) \<and>
   (DefinitionsMap_get (definitions (bblocks st b))
      \<lparr>target = t, offset = start i, dlen = len i\<rparr> \<noteq> [] \<longrightarrow>
      createPhi b t i st = Abort AssertionFailed) \<and>
   (usesUnknown (rwnodes st use) \<and> bblock (rwnodes st use) = None \<longrightarrow>
      getReachingDefinitions fuel st use = Abort AssertionFailed)"
  by (simp add: addDefuse_def defuse_add_def set_insert_all_def createPhi_def create_def
      addOverwrites_def Let_def getReachingDefinitions_def findAllReachingDefinitions_def)

theorem findDefinitions_null_block_witness:
  "findDefinitions 0 None unknownMemory emptyGraph = Ok ([], emptyGraph) \<and>
   performLvn_overwrites 0 2 [unknownMemory] emptyGraph = Abort AssertionFailed"
proof -
  have "Offset_isUnknown (offset unknownMemory) \<or> target_isUnknown (target unknownMemory)"
    by (simp add: unknownMemory_def target_isUnknown_def)
  with findDefinitions_null_block [of 0 unknownMemory emptyGraph _ "[]" "[]" _ _ _ _ 0 2 "[]"]
  show ?thesis by blast
qed

section \<open>The order of the worklist and the result\<close>

text \<open>
  Claim C8, as amended. Take two runs of the local pass followed by the global pass on the
  same graph, with any two assignments of addresses to the nodes, hence any two orders in
  which the worklist hands out the PHIs. The two results have the same \<^verbatim>\<open>defuse\<close> at
  every node of the input graph that is not a registered PHI: the global pass writes the
  \<^verbatim>\<open>defuse\<close> of PHIs only.
\<close>

theorem worklist_order_frame:
  assumes "pipeline_at addr1 fuel1 st = Ok s1" and "pipeline_at addr2 fuel2 st = Ok s2"
    and "n < next_node st" and "n \<notin> set (phis st)"
  shows "defuse (rwnodes s1 n) = defuse (rwnodes s2 n)"
proof -
  from assms(1) obtain t where t: "performLvn_graph st = Ok t"
    and 1: "performGvn_at addr1 fuel1 t = Ok s1"
    by (auto simp: pipeline_at_def split: result.splits)
  with assms(2) have 2: "performGvn_at addr2 fuel2 t = Ok s2"
    by (simp add: pipeline_at_def)
  from performLvn_graph_closed [OF registry_step_closed t] assms(3,4)
  have n: "n < next_node t" "n \<notin> set (phis t)" by (auto simp: registry_step_def)
  from performGvn_at_frame [OF 1] performGvn_at_frame [OF 2] n
  show ?thesis by (simp add: gvn_frame_def)
qed

theorem worklist_order_frame_witness:
  "\<exists>s1 s2. pipeline_at upwards 10 Fork = Ok s1 \<and> pipeline_at downwards 10 Fork = Ok s2 \<and>
           phis s1 = [6, 7, 8, 9] \<and> phis s2 = [6, 7, 8] \<and>
           defuse (rwnodes s1 5) = defuse (rwnodes s2 5) \<and> defuse (rwnodes s1 5) = [7]"
proof -
  have "\<exists>s1. pipeline_at upwards 10 Fork = Ok s1 \<and> phis s1 = [6, 7, 8, 9] \<and>
             defuse (rwnodes s1 5) = [7]"
    by (simp add: Fork_def emptyNode_def emptyBlock_def lvn_defs map_defs interval_defs gvn_defs
        numeral_eq_Suc getSinglePredecessor_def)
  then obtain s1 where 1: "pipeline_at upwards 10 Fork = Ok s1"
    and p1: "phis s1 = [6, 7, 8, 9]" and d1: "defuse (rwnodes s1 5) = [7]"
    by blast
  have "\<exists>s2. pipeline_at downwards 10 Fork = Ok s2 \<and> phis s2 = [6, 7, 8]"
    by (simp add: Fork_def emptyNode_def emptyBlock_def lvn_defs map_defs interval_defs gvn_defs
        numeral_eq_Suc getSinglePredecessor_def)
  then obtain s2 where 2: "pipeline_at downwards 10 Fork = Ok s2" and p2: "phis s2 = [6, 7, 8]"
    by blast
  have "defuse (rwnodes s1 5) = defuse (rwnodes s2 5)"
    by (rule worklist_order_frame [OF 1 2]) (simp_all add: Fork_def)
  with 1 2 p1 p2 d1 show ?thesis by blast
qed

text \<open>
  The claim as it is written covers the PHIs too. On the graph \<^verbatim>\<open>Fork\<close> the local pass
  creates the PHI 6 for \<open>(t, 0, 4)\<close> in block 3 and the PHI 7 for \<open>(t, 0, 8)\<close> in block 4.
  When the worklist hands out 6 first, the search from block 3 creates the PHI 8 for
  \<open>[0, 4)\<close> in block 2, and the search from block 4 finds 8 there and creates the PHI 9 for
  the rest \<open>[4, 8)\<close>: the \<^verbatim>\<open>defuse\<close> of 7 is \<open>[8, 9]\<close>. When it hands out 7 first, the
  search from block 4 creates one PHI 8 for \<open>[0, 8)\<close> in block 2, which the search from
  block 3 finds: the \<^verbatim>\<open>defuse\<close> of 7 is \<open>[8]\<close>, and the graph has one PHI less.
\<close>

theorem worklist_order_frame_counterexample:
  "(case pipeline_at upwards 10 Fork of
      Ok s \<Rightarrow> (phis s, defuse (rwnodes s 7)) | _ \<Rightarrow> ([], [])) = ([6, 7, 8, 9], [8, 9]) \<and>
   (case pipeline_at downwards 10 Fork of
      Ok s \<Rightarrow> (phis s, defuse (rwnodes s 7)) | _ \<Rightarrow> ([], [])) = ([6, 7, 8], [8])"
  by (simp add: Fork_def emptyNode_def emptyBlock_def lvn_defs map_defs interval_defs gvn_defs
      numeral_eq_Suc getSinglePredecessor_def)

end
